theory Spec2Isabelle
  imports Complex_Main "HOL-Library.Multiset" "HOL-Library.Char_ord" "HOL-Library.Product_Lexorder"
begin

section \<open>Values of type double\<close>

text \<open>
  The matcher and the coefficient compute with \<^verbatim>\<open>double\<close>. A double is modelled by the
  real number it stands for, together with the three special values that the divisions of
  the code produce when a divisor is zero. Every arithmetic operation and every conversion
  from \<^verbatim>\<open>size_t\<close> returns the exact result rounded to the nearest number with a significand of
  53 bits, ties to the even significand, as IEEE 754 binary64 does in its default rounding
  mode. The exponent is not bounded: overflow and underflow are not part of the model (the
  sizes are below \<open>2^64\<close>, and the quotient \<open>2 / threshold\<close> leaves the range of a double only for
  a threshold below \<open>2^-1023\<close>). The only zero is the positive one (the code itself only
  produces zeros by converting the size 0).
\<close>

text \<open>The integer part of the binary logarithm.\<close>

fun ilog2 :: "nat \<Rightarrow> nat" where
  "ilog2 n = (if n < 2 then 0 else Suc (ilog2 (n div 2)))"

declare ilog2.simps [simp del]

text \<open>The exponent \<open>e\<close> of a positive number \<open>x\<close>: \<open>2^e \<le> x < 2^(e+1)\<close>.\<close>

definition exponent :: "real \<Rightarrow> int" where
  "exponent x =
     (if 1 \<le> x then int (ilog2 (nat \<lfloor>x\<rfloor>))
      else (let k = int (ilog2 (nat \<lfloor>1 / x\<rfloor>)) in if x = 2 powi (- k) then - k else - k - 1))"

text \<open>Rounding to the nearest integer, a tie to the even one.\<close>

definition round_even :: "real \<Rightarrow> int" where
  "round_even m =
     (let f = \<lfloor>m\<rfloor>; d = m - of_int f in
      if d < 1 / 2 then f else if 1 / 2 < d then f + 1 else if even f then f else f + 1)"

text \<open>
  Rounding of a positive number: with \<open>u\<close> the unit in the last place of the 53 bits that
  start at the exponent of \<open>x\<close>, the nearest multiple of \<open>u\<close>.
\<close>

definition round_pos :: "real \<Rightarrow> real" where
  "round_pos x = (let u = 2 powi (exponent x - 52) in of_int (round_even (x / u)) * u)"

definition rnd :: "real \<Rightarrow> real" where
  "rnd x = (if x = 0 then 0 else if 0 < x then round_pos x else - round_pos (- x))"

datatype double = Fin real | PInf | NInf | NaN

fun ddiv :: "double \<Rightarrow> double \<Rightarrow> double" where
  "ddiv NaN _ = NaN"
| "ddiv _ NaN = NaN"
| "ddiv (Fin a) (Fin b) =
     (if b = 0 then (if a = 0 then NaN else if 0 < a then PInf else NInf) else Fin (rnd (a / b)))"
| "ddiv (Fin a) PInf = Fin 0"
| "ddiv (Fin a) NInf = Fin 0"
| "ddiv PInf (Fin b) = (if 0 \<le> b then PInf else NInf)"
| "ddiv NInf (Fin b) = (if 0 \<le> b then NInf else PInf)"
| "ddiv PInf PInf = NaN"
| "ddiv PInf NInf = NaN"
| "ddiv NInf PInf = NaN"
| "ddiv NInf NInf = NaN"

fun dsub :: "double \<Rightarrow> double \<Rightarrow> double" where
  "dsub NaN _ = NaN"
| "dsub _ NaN = NaN"
| "dsub (Fin a) (Fin b) = Fin (rnd (a - b))"
| "dsub (Fin a) PInf = NInf"
| "dsub (Fin a) NInf = PInf"
| "dsub PInf (Fin b) = PInf"
| "dsub NInf (Fin b) = NInf"
| "dsub PInf PInf = NaN"
| "dsub PInf NInf = PInf"
| "dsub NInf PInf = NInf"
| "dsub NInf NInf = NaN"

fun dmul :: "double \<Rightarrow> double \<Rightarrow> double" where
  "dmul NaN _ = NaN"
| "dmul _ NaN = NaN"
| "dmul (Fin a) (Fin b) = Fin (rnd (a * b))"
| "dmul (Fin a) PInf = (if a = 0 then NaN else if 0 < a then PInf else NInf)"
| "dmul (Fin a) NInf = (if a = 0 then NaN else if 0 < a then NInf else PInf)"
| "dmul PInf (Fin b) = (if b = 0 then NaN else if 0 < b then PInf else NInf)"
| "dmul NInf (Fin b) = (if b = 0 then NaN else if 0 < b then NInf else PInf)"
| "dmul PInf PInf = PInf"
| "dmul PInf NInf = NInf"
| "dmul NInf PInf = NInf"
| "dmul NInf NInf = PInf"

text \<open>Comparisons: every comparison with NaN is false.\<close>

fun dless :: "double \<Rightarrow> double \<Rightarrow> bool" where
  "dless NaN _ = False"
| "dless _ NaN = False"
| "dless (Fin a) (Fin b) = (a < b)"
| "dless (Fin a) PInf = True"
| "dless (Fin a) NInf = False"
| "dless PInf _ = False"
| "dless NInf (Fin b) = True"
| "dless NInf PInf = True"
| "dless NInf NInf = False"

definition dgreater :: "double \<Rightarrow> double \<Rightarrow> bool" where
  "dgreater a b = dless b a"

text \<open>\<^verbatim>\<open>static_cast<double>\<close> of a \<^verbatim>\<open>size_t\<close>.\<close>

definition double_of_size :: "nat \<Rightarrow> double" where
  "double_of_size n = Fin (rnd (real n))"


section \<open>Counted bigrams: \<^verbatim>\<open>basic_bigrams\<close>\<close>

text \<open>
  A character is a \<^typ>\<open>char\<close>, a string a \<^typ>\<open>string\<close>; \<^verbatim>\<open>ssize_t(c)\<close> is
  \<^term>\<open>of_char c :: int\<close>. Tuples of characters are ordered lexicographically, as
  \<^verbatim>\<open>std::tuple\<close> is. Sizes and counts (\<^verbatim>\<open>size_t\<close>) are natural numbers.
\<close>

type_synonym bigram_t = "char \<times> char"
type_synonym bigram_cnt_t = "bigram_t \<times> nat"

record basic_bigrams =
  m_impl :: "bigram_cnt_t list"
  m_size :: nat

definition cmp :: "bigram_cnt_t \<Rightarrow> bigram_cnt_t \<Rightarrow> int" where
  "cmp bc1 bc2 =
     (let b1 = fst bc1; b2 = fst bc2;
          diff = (of_char (fst b1) :: int) - of_char (fst b2)
      in if 0 = diff then of_char (snd b1) - of_char (snd b2) else diff)"

definition bigrams_empty :: basic_bigrams where
  "bigrams_empty = \<lparr>m_impl = [], m_size = 0\<rparr>"

text \<open>The loop that creates the bigrams of a string, in the order of their positions.\<close>

definition create_bigrams :: "string \<Rightarrow> bigram_t list" where
  "create_bigrams str = map (\<lambda>i. (str ! i, str ! (i + 1))) [0..<length str - 1]"

text \<open>
  The loop that unifies equal bigrams: the list built so far (never empty) and the rest of
  the sorted vector.
\<close>

fun unify :: "bigram_cnt_t list \<Rightarrow> bigram_t list \<Rightarrow> bigram_cnt_t list" where
  "unify impl [] = impl"
| "unify impl (bigram # rest) =
     (if fst (last impl) = bigram
      then unify (butlast impl @ [(fst (last impl), snd (last impl) + 1)]) rest
      else unify (impl @ [(bigram, 1)]) rest)"

definition bigrams_of_string :: "string \<Rightarrow> basic_bigrams" where
  "bigrams_of_string str =
     (if length str < 2 then bigrams_empty
      else let bigram_vec = sort (create_bigrams str)
           in \<lparr>m_impl = unify [(hd bigram_vec, 1)] (tl bigram_vec),
               m_size = length bigram_vec\<rparr>)"

definition bsize :: "basic_bigrams \<Rightarrow> nat" where
  "bsize b = m_size b"

text \<open>
  \<^verbatim>\<open>operator +=\<close>: the merge runs over the own list from the cursor \<^verbatim>\<open>my_bigram\<close> on and
  over the rest of the other list; it returns the own list from the cursor on and the
  updated \<^verbatim>\<open>m_size\<close>. The first equation is the loop that appends the trailing bigrams.
\<close>

fun append_trailing :: "bigram_cnt_t list \<Rightarrow> nat \<Rightarrow> bigram_cnt_t list \<times> nat" where
  "append_trailing [] sz = ([], sz)"
| "append_trailing (other_bigram # rest) sz =
     (case append_trailing rest (sz + snd other_bigram) of
        (impl, sz') \<Rightarrow> (other_bigram # impl, sz'))"

function merge_loop :: "bigram_cnt_t list \<Rightarrow> bigram_cnt_t list \<Rightarrow> nat \<Rightarrow> bigram_cnt_t list \<times> nat" where
  "merge_loop [] other sz = append_trailing other sz"
| "merge_loop (my_bigram # mine) [] sz = (my_bigram # mine, sz)"
| "merge_loop (my_bigram # mine) (other_bigram # other) sz =
     (if cmp my_bigram other_bigram < 0 then
        (case merge_loop mine (other_bigram # other) sz of
           (impl, sz') \<Rightarrow> (my_bigram # impl, sz'))
      else if 0 = cmp my_bigram other_bigram then
        (case merge_loop mine other (sz + snd other_bigram) of
           (impl, sz') \<Rightarrow> ((fst my_bigram, snd my_bigram + snd other_bigram) # impl, sz'))
      else
        (case merge_loop (my_bigram # mine) other (sz + snd other_bigram) of
           (impl, sz') \<Rightarrow> (other_bigram # impl, sz')))"
  by pat_completeness auto
termination
  by (relation "measure (\<lambda>(mine, other, sz). length mine + length other)") auto

definition plus_assign :: "basic_bigrams \<Rightarrow> basic_bigrams \<Rightarrow> basic_bigrams" where
  "plus_assign this other =
     (if bsize this = 0 then other
      else case merge_loop (m_impl this) (m_impl other) (m_size this) of
             (impl, sz) \<Rightarrow> \<lparr>m_impl = impl, m_size = sz\<rparr>)"

text \<open>
  The variadic \<^verbatim>\<open>unite(arg1, args...)\<close>: the union is built right to left, each step being
  \<^verbatim>\<open>unite(args...) += arg1\<close>. \<^verbatim>\<open>operator +\<close> is \<^verbatim>\<open>unite(*this, other)\<close>.
\<close>

fun unite :: "basic_bigrams \<Rightarrow> basic_bigrams list \<Rightarrow> basic_bigrams" where
  "unite arg [] = arg"
| "unite arg1 (arg2 # args) = plus_assign (unite arg2 args) arg1"

definition bplus :: "basic_bigrams \<Rightarrow> basic_bigrams \<Rightarrow> basic_bigrams" where
  "bplus this other = unite this [other]"

function intersect_loop :: "bigram_cnt_t list \<Rightarrow> bigram_cnt_t list \<Rightarrow> nat \<Rightarrow> nat" where
  "intersect_loop (bg1 # rest1) (bg2 # rest2) sz =
     (if cmp bg1 bg2 < 0 then intersect_loop rest1 (bg2 # rest2) sz
      else if cmp bg1 bg2 = 0 then intersect_loop rest1 rest2 (sz + min (snd bg1) (snd bg2))
      else intersect_loop (bg1 # rest1) rest2 sz)"
| "intersect_loop [] _ sz = sz"
| "intersect_loop (bg1 # rest1) [] sz = sz"
  by pat_completeness auto
termination
  by (relation "measure (\<lambda>(l1, l2, sz). length l1 + length l2)") auto

definition intersect_size :: "basic_bigrams \<Rightarrow> basic_bigrams \<Rightarrow> nat" where
  "intersect_size bigrams1 bigrams2 = intersect_loop (m_impl bigrams1) (m_impl bigrams2) 0"

definition sorensen_dice_coef :: "basic_bigrams \<Rightarrow> basic_bigrams \<Rightarrow> double" where
  "sorensen_dice_coef bigrams1 bigrams2 =
     (let isect_size = intersect_size bigrams1 bigrams2 in
      if isect_size \<noteq> 0
      then ddiv (dmul (Fin 2) (double_of_size isect_size))
                (double_of_size (bsize bigrams1 + bsize bigrams2))
      else Fin 0)"

section \<open>Properties of the rounding\<close>

lemma ilog2_spec: "0 < n \<Longrightarrow> 2 ^ ilog2 n \<le> n \<and> n < 2 ^ (ilog2 n + 1)"
proof (induction n rule: ilog2.induct)
  case (1 n)
  show ?case
  proof (cases "n < 2")
    case True
    then have "n = 1" using 1(2) by simp
    then show ?thesis by (subst ilog2.simps, subst ilog2.simps) simp
  next
    case False
    then have "0 < n div 2" by simp
    from 1(1) [OF False this] have a: "2 ^ ilog2 (n div 2) \<le> n div 2"
      and b: "n div 2 < 2 ^ (ilog2 (n div 2) + 1)" by simp_all
    have e: "ilog2 n = Suc (ilog2 (n div 2))" using False by (subst ilog2.simps) simp
    have "2 * 2 ^ ilog2 (n div 2) \<le> n" using a by linarith
    moreover have "n < 2 * 2 ^ (ilog2 (n div 2) + 1)" using b by linarith
    ultimately show ?thesis unfolding e by simp
  qed
qed

lemma powi_Suc: "(2::real) powi (e + 1) = 2 * 2 powi e"
  by (rule power_int_add_1') simp

lemma powi_pos: "0 < (2::real) powi e"
  by (rule zero_less_power_int) simp

lemma powi_less: "e < e' \<Longrightarrow> (2::real) powi e < 2 powi e'"
  by (rule power_int_strict_increasing) simp_all

lemma powi_le: "e \<le> e' \<Longrightarrow> (2::real) powi e \<le> 2 powi e'"
  by (rule power_int_increasing) simp_all

lemma powi_add: "(2::real) powi (a + b) = 2 powi a * 2 powi b"
  by (rule power_int_add) simp

lemma floor_pow_bounds:
  fixes y :: real
  assumes "1 \<le> y"
  shows "2 ^ ilog2 (nat \<lfloor>y\<rfloor>) \<le> y \<and> y < 2 ^ (ilog2 (nat \<lfloor>y\<rfloor>) + 1)"
proof -
  let ?n = "nat \<lfloor>y\<rfloor>"
  let ?l = "ilog2 ?n"
  have f1: "1 \<le> \<lfloor>y\<rfloor>" using assms by linarith
  then have n: "0 < ?n" by simp
  from ilog2_spec [OF n] have a: "2 ^ ?l \<le> ?n" and b: "?n < 2 ^ (?l + 1)" by simp_all
  have ny: "real ?n \<le> y" using f1 by (simp add: of_nat_nat)
  have "real (2 ^ ?l) \<le> real ?n" using a by (simp only: of_nat_le_iff)
  then have "(2::real) ^ ?l \<le> real ?n" by (simp only: of_nat_power of_nat_numeral)
  then have lo: "2 ^ ?l \<le> y" using ny by linarith
  have "?n + 1 \<le> 2 ^ (?l + 1)" using b by simp
  then have "real (?n + 1) \<le> real (2 ^ (?l + 1))" by (simp only: of_nat_le_iff)
  then have "real ?n + 1 \<le> (2::real) ^ (?l + 1)"
    by (simp only: of_nat_power of_nat_numeral of_nat_add of_nat_1)
  moreover have "real ?n = of_int \<lfloor>y\<rfloor>" using f1 by (simp add: of_nat_nat)
  moreover have "y < of_int \<lfloor>y\<rfloor> + 1" by linarith
  ultimately have "y < 2 ^ (?l + 1)" by linarith
  with lo show ?thesis by simp
qed

lemma exponent_spec:
  assumes "0 < x"
  shows "2 powi exponent x \<le> x \<and> x < 2 powi (exponent x + 1)"
proof (cases "1 \<le> x")
  case True
  then have e: "exponent x = int (ilog2 (nat \<lfloor>x\<rfloor>))" by (simp add: exponent_def)
  have e1: "exponent x + 1 = int (ilog2 (nat \<lfloor>x\<rfloor>) + 1)" unfolding e by simp
  show ?thesis using floor_pow_bounds [OF True] unfolding e1 unfolding e
    by (simp only: power_int_of_nat)
next
  case False
  define k where "k = ilog2 (nat \<lfloor>1 / x\<rfloor>)"
  have y1: "1 \<le> 1 / x" using assms False by simp
  from floor_pow_bounds [OF y1] have lo: "2 ^ k \<le> 1 / x" and hi: "1 / x < 2 ^ (k + 1)"
    by (simp_all add: k_def)
  have p: "(0::real) < 2 ^ k" "(0::real) < 2 ^ (k + 1)" by simp_all
  have xle: "x \<le> 1 / 2 ^ k" using lo assms p(1) by (simp add: field_simps)
  have xgt: "1 / 2 ^ (k + 1) < x" using hi assms p(2) by (simp add: field_simps)
  have m1: "(2::real) powi (- int k) = 1 / 2 ^ k"
    by (simp add: power_int_minus_divide)
  have m2: "(2::real) powi (- int k - 1) = 1 / 2 ^ (k + 1)"
  proof -
    have "- int k - 1 = - int (k + 1)" by simp
    then have "(2::real) powi (- int k - 1) = 2 powi (- int (k + 1))" by (rule arg_cong)
    also have "\<dots> = 1 / 2 ^ (k + 1)" by (simp only: power_int_minus_divide power_int_of_nat)
    finally show ?thesis .
  qed
  have m3: "(2::real) powi (- int k + 1) = 2 * (1 / 2 ^ k)" using powi_Suc [of "- int k"] m1 by simp
  show ?thesis
  proof (cases "x = 2 powi (- int k)")
    case True
    then have e: "exponent x = - int k" using False by (simp add: exponent_def k_def Let_def)
    have "x < 2 * x" using assms by simp
    then show ?thesis unfolding e m3 using True m1 by simp
  next
    case ne: False
    then have e: "exponent x = - int k - 1" using False by (simp add: exponent_def k_def Let_def)
    have "x < 1 / 2 ^ k" using xle ne m1 by simp
    then show ?thesis unfolding e using xgt m2 m1 by simp
  qed
qed

lemma exponent_unique:
  assumes "2 powi e \<le> x" "x < 2 powi (e + 1)"
  shows "exponent x = e"
proof -
  have x: "0 < x" using assms(1) powi_pos [of e] by linarith
  from exponent_spec [OF x] have a: "2 powi exponent x \<le> x" and b: "x < 2 powi (exponent x + 1)"
    by simp_all
  have "\<not> e + 1 \<le> exponent x"
  proof
    assume "e + 1 \<le> exponent x"
    then have "(2::real) powi (e + 1) \<le> 2 powi exponent x" by (rule powi_le)
    then show False using a assms(2) by linarith
  qed
  moreover have "\<not> exponent x + 1 \<le> e"
  proof
    assume "exponent x + 1 \<le> e"
    then have "(2::real) powi (exponent x + 1) \<le> 2 powi e" by (rule powi_le)
    then show False using b assms(1) by linarith
  qed
  ultimately show ?thesis by linarith
qed

lemma exponent_mono:
  assumes "0 < x" "x \<le> y"
  shows "exponent x \<le> exponent y"
proof (rule ccontr)
  assume "\<not> exponent x \<le> exponent y"
  then have "exponent y + 1 \<le> exponent x" by simp
  then have "(2::real) powi (exponent y + 1) \<le> 2 powi exponent x" by (rule powi_le)
  moreover have "2 powi exponent x \<le> x" using exponent_spec [OF assms(1)] by simp
  moreover have "y < 2 powi (exponent y + 1)" using exponent_spec [of y] assms by simp
  ultimately show False using assms(2) by linarith
qed

lemma round_even_of_int: "round_even (of_int n) = n"
  by (simp add: round_even_def)

lemma round_even_bounds: "\<lfloor>m\<rfloor> \<le> round_even m \<and> round_even m \<le> \<lfloor>m\<rfloor> + 1"
  by (simp add: round_even_def Let_def)

lemma round_even_mono:
  assumes "a \<le> b"
  shows "round_even a \<le> round_even b"
proof (cases "\<lfloor>a\<rfloor> = \<lfloor>b\<rfloor>")
  case True
  have "a - of_int \<lfloor>b\<rfloor> \<le> b - of_int \<lfloor>b\<rfloor>" using assms by simp
  then show ?thesis unfolding round_even_def Let_def True by auto
next
  case False
  have "\<lfloor>a\<rfloor> \<le> \<lfloor>b\<rfloor>" using assms by (rule floor_mono)
  then have "\<lfloor>a\<rfloor> + 1 \<le> \<lfloor>b\<rfloor>" using False by simp
  then show ?thesis using round_even_bounds [of a] round_even_bounds [of b] by linarith
qed

lemma round_even_le: "m \<le> of_int K \<Longrightarrow> round_even m \<le> K"
  using round_even_mono [of m "of_int K"] by (simp add: round_even_of_int)

lemma round_even_ge: "of_int K \<le> m \<Longrightarrow> K \<le> round_even m"
  using round_even_mono [of "of_int K" m] by (simp add: round_even_of_int)

lemma mantissa_bounds:
  assumes "0 < x"
  shows "2 ^ 52 \<le> x / 2 powi (exponent x - 52) \<and> x / 2 powi (exponent x - 52) \<le> 2 ^ 53"
proof -
  let ?e = "exponent x"
  let ?u = "(2::real) powi (?e - 52)"
  have u: "0 < ?u" by (rule powi_pos)
  have s1: "(2::real) powi ?e = 2 ^ 52 * ?u"
    using powi_add [of 52 "?e - 52"] by (simp add: power_int_of_nat [of _ 52, simplified] del: power_int_of_nat)
  have s2: "(2::real) powi (?e + 1) = 2 ^ 53 * ?u"
    using powi_add [of 53 "?e - 52"] by (simp add: algebra_simps)
  from exponent_spec [OF assms] have "2 ^ 52 * ?u \<le> x" "x < 2 ^ 53 * ?u"
    unfolding s1 s2 by simp_all
  then show ?thesis using u by (simp add: field_simps)
qed

lemma round_pos_bounds:
  assumes "0 < x"
  shows "2 powi exponent x \<le> round_pos x \<and> round_pos x \<le> 2 powi (exponent x + 1)"
proof -
  let ?e = "exponent x"
  let ?u = "(2::real) powi (?e - 52)"
  let ?n = "round_even (x / ?u)"
  have u: "0 < ?u" by (rule powi_pos)
  have s1: "(2::real) powi ?e = 2 ^ 52 * ?u"
    using powi_add [of 52 "?e - 52"] by simp
  have s2: "(2::real) powi (?e + 1) = 2 ^ 53 * ?u"
    using powi_add [of 53 "?e - 52"] by (simp add: algebra_simps)
  from mantissa_bounds [OF assms] have m: "of_int (2 ^ 52) \<le> x / ?u" "x / ?u \<le> of_int (2 ^ 53)"
    by simp_all
  have "2 ^ 52 \<le> ?n" "?n \<le> 2 ^ 53"
    using m(1) apply (rule round_even_ge) using m(2) apply (rule round_even_le) done
  then have "(2::real) ^ 52 \<le> of_int ?n" "of_int ?n \<le> (2::real) ^ 53"
    by (metis of_int_le_iff of_int_numeral of_int_power)+
  then have "2 ^ 52 * ?u \<le> of_int ?n * ?u" "of_int ?n * ?u \<le> 2 ^ 53 * ?u"
    using u by (simp_all only: mult_le_cancel_right_pos)
  then show ?thesis unfolding s1 s2 by (simp add: round_pos_def Let_def)
qed

lemma round_pos_pos: "0 < x \<Longrightarrow> 0 < round_pos x"
  using round_pos_bounds [of x] powi_pos [of "exponent x"] by linarith

lemma round_pos_mono:
  assumes "0 < x" "x \<le> y"
  shows "round_pos x \<le> round_pos y"
proof (cases "exponent x = exponent y")
  case True
  let ?u = "(2::real) powi (exponent y - 52)"
  have u: "0 < ?u" by (rule powi_pos)
  have "x / ?u \<le> y / ?u" using assms(2) u by (simp add: divide_right_mono)
  then have "round_even (x / ?u) \<le> round_even (y / ?u)" by (rule round_even_mono)
  then have "(of_int (round_even (x / ?u)) :: real) \<le> of_int (round_even (y / ?u))" by simp
  then have "of_int (round_even (x / ?u)) * ?u \<le> of_int (round_even (y / ?u)) * ?u"
    using u by (simp only: mult_le_cancel_right_pos)
  then show ?thesis by (simp add: round_pos_def Let_def True)
next
  case False
  have y: "0 < y" using assms by linarith
  have "exponent x \<le> exponent y" using assms by (rule exponent_mono)
  then have "exponent x + 1 \<le> exponent y" using False by simp
  then have "(2::real) powi (exponent x + 1) \<le> 2 powi exponent y" by (rule powi_le)
  then show ?thesis using round_pos_bounds [OF assms(1)] round_pos_bounds [OF y] by linarith
qed

lemma round_pos_representable:
  assumes "2 ^ 52 \<le> n" "n < 2 ^ 53"
  shows "round_pos (of_int n * 2 powi k) = of_int n * 2 powi k"
proof -
  let ?u = "(2::real) powi k"
  have u: "0 < ?u" by (rule powi_pos)
  have n: "(2::real) ^ 52 \<le> of_int n" "of_int n < (2::real) ^ 53"
    using assms by (metis of_int_le_iff of_int_numeral of_int_power,
      metis of_int_less_iff of_int_numeral of_int_power)
  have s1: "(2::real) powi (k + 52) = 2 ^ 52 * ?u"
    using powi_add [of 52 k] by (simp add: algebra_simps)
  have s2: "(2::real) powi (k + 52 + 1) = 2 ^ 53 * ?u"
    using powi_add [of 53 k] by (simp add: algebra_simps)
  have "2 ^ 52 * ?u \<le> of_int n * ?u" using n(1) u by (simp only: mult_le_cancel_right_pos)
  moreover have "of_int n * ?u < 2 ^ 53 * ?u" using n(2) u by (simp only: mult_less_cancel_right_pos)
  ultimately have e: "exponent (of_int n * ?u) = k + 52"
    unfolding s1 [symmetric] s2 [symmetric] by (rule exponent_unique)
  have "of_int n * ?u / ?u = of_int n" using u by simp
  then show ?thesis by (simp add: round_pos_def Let_def e round_even_of_int)
qed

lemma round_pos_idem:
  assumes "0 < x"
  shows "round_pos (round_pos x) = round_pos x"
proof -
  let ?e = "exponent x"
  let ?u = "(2::real) powi (?e - 52)"
  let ?n = "round_even (x / ?u)"
  have v: "round_pos x = of_int ?n * ?u" by (simp add: round_pos_def Let_def)
  from mantissa_bounds [OF assms] have m: "of_int (2 ^ 52) \<le> x / ?u" "x / ?u \<le> of_int (2 ^ 53)"
    by simp_all
  have b: "2 ^ 52 \<le> ?n" "?n \<le> 2 ^ 53"
    using m(1) apply (rule round_even_ge) using m(2) apply (rule round_even_le) done
  show ?thesis
  proof (cases "?n = 2 ^ 53")
    case True
    have "(2::real) powi (?e - 52 + 1) = 2 * ?u" by (rule powi_Suc)
    then have "round_pos x = of_int (2 ^ 52) * 2 powi (?e - 52 + 1)" unfolding v True by simp
    moreover have "round_pos (of_int (2 ^ 52) * 2 powi (?e - 52 + 1)) = of_int (2 ^ 52) * 2 powi (?e - 52 + 1)"
      by (rule round_pos_representable) simp_all
    ultimately show ?thesis by simp
  next
    case False
    then have "?n < 2 ^ 53" using b(2) by simp
    with b(1) show ?thesis unfolding v by (rule round_pos_representable)
  qed
qed

lemma round_pos_double:
  assumes "0 < x"
  shows "round_pos (2 * x) = 2 * round_pos x"
proof -
  from exponent_spec [OF assms] have "2 * 2 powi exponent x \<le> 2 * x" "2 * x < 2 * 2 powi (exponent x + 1)"
    by simp_all
  then have "2 powi (exponent x + 1) \<le> 2 * x" "2 * x < 2 powi (exponent x + 1 + 1)"
    by (simp_all only: powi_Suc)
  then have e: "exponent (2 * x) = exponent x + 1" by (rule exponent_unique)
  have "(2::real) powi (exponent x - 52 + 1) = 2 * 2 powi (exponent x - 52)" by (rule powi_Suc)
  moreover have "exponent x + 1 - 52 = exponent x - 52 + 1" by simp
  ultimately have u: "(2::real) powi (exponent x + 1 - 52) = 2 * 2 powi (exponent x - 52)" by simp
  show ?thesis unfolding round_pos_def Let_def e u by simp
qed

lemma rnd_0: "rnd 0 = 0"
  by (simp add: rnd_def)

lemma rnd_1: "rnd 1 = 1"
  by code_simp

lemma rnd_pos: "0 < x \<Longrightarrow> 0 < rnd x"
  by (simp add: rnd_def round_pos_pos)

lemma rnd_nonneg: "0 \<le> x \<Longrightarrow> 0 \<le> rnd x"
  using rnd_pos [of x] by (cases "x = 0") (simp_all add: rnd_0 less_imp_le)

lemma rnd_neg: "x < 0 \<Longrightarrow> rnd x < 0"
  using round_pos_pos [of "- x"] by (simp add: rnd_def)

lemma rnd_mono:
  assumes "x \<le> y"
  shows "rnd x \<le> rnd y"
proof -
  consider (pp) "0 < x" | (zn) "x \<le> 0" "0 \<le> y" | (nn) "y < 0" using assms by linarith
  then show ?thesis
  proof cases
    case pp
    then have "0 < y" using assms by linarith
    then show ?thesis using pp round_pos_mono [OF pp assms] by (simp add: rnd_def)
  next
    case zn
    have "rnd x \<le> 0" using zn(1) rnd_neg [of x] by (cases "x = 0") (simp_all add: rnd_0 less_imp_le)
    moreover have "0 \<le> rnd y" using zn(2) by (rule rnd_nonneg)
    ultimately show ?thesis by linarith
  next
    case nn
    then have x: "x < 0" using assms by linarith
    have "round_pos (- y) \<le> round_pos (- x)" using nn assms by (intro round_pos_mono) simp_all
    then show ?thesis using nn x by (simp add: rnd_def)
  qed
qed

lemma rnd_idem: "rnd (rnd x) = rnd x"
proof -
  consider (p) "0 < x" | (z) "x = 0" | (n) "x < 0" by linarith
  then show ?thesis
  proof cases
    case p
    then show ?thesis using round_pos_pos [OF p] round_pos_idem [OF p] by (simp add: rnd_def)
  next
    case z
    then show ?thesis by (simp add: rnd_0)
  next
    case n
    then have p: "0 < - x" by simp
    show ?thesis using n round_pos_pos [OF p] round_pos_idem [OF p] by (simp add: rnd_def)
  qed
qed

lemma rnd_double: "rnd (2 * x) = 2 * rnd x"
proof -
  consider (p) "0 < x" | (z) "x = 0" | (n) "x < 0" by linarith
  then show ?thesis
  proof cases
    case p
    then show ?thesis using round_pos_double [OF p] by (simp add: rnd_def)
  next
    case z
    then show ?thesis by (simp add: rnd_0)
  next
    case n
    then have p: "0 < - x" by simp
    show ?thesis using n round_pos_double [OF p] by (simp add: rnd_def)
  qed
qed

lemma rnd_of_nat:
  assumes "n < 2 ^ 53"
  shows "rnd (real n) = real n"
proof (cases "n = 0")
  case True
  then show ?thesis by (simp add: rnd_0)
next
  case False
  then have n: "0 < n" by simp
  define l where "l = ilog2 n"
  from ilog2_spec [OF n] have lo: "2 ^ l \<le> n" and hi: "n < 2 ^ (l + 1)" by (simp_all add: l_def)
  have l53: "l < 53"
  proof (rule ccontr)
    assume "\<not> l < 53"
    then have "53 \<le> l" by simp
    then have "(2::nat) ^ 53 \<le> 2 ^ l" by (intro power_increasing) simp_all
    with lo assms show False by linarith
  qed
  define k where "k = 52 - l"
  have lk: "l + k = 52" using l53 by (simp add: k_def)
  define N where "N = int (n * 2 ^ k)"
  have p: "(2::nat) ^ l * 2 ^ k = 2 ^ 52" using lk by (simp add: power_add [symmetric])
  have "l + 1 + k = 53" using lk by simp
  then have p': "(2::nat) ^ (l + 1) * 2 ^ k = 2 ^ 53" by (simp only: power_add [symmetric])
  have "2 ^ l * 2 ^ k \<le> n * 2 ^ k" using lo by simp
  then have b1: "2 ^ 52 \<le> n * 2 ^ k" unfolding p .
  have "n * 2 ^ k < 2 ^ (l + 1) * 2 ^ k" using hi by simp
  then have b2: "n * 2 ^ k < 2 ^ 53" unfolding p' .
  have N1: "2 ^ 52 \<le> N" using b1 unfolding N_def by (metis of_nat_le_iff of_nat_numeral of_nat_power)
  have N2: "N < 2 ^ 53" using b2 unfolding N_def by (metis of_nat_less_iff of_nat_numeral of_nat_power)
  have q: "(2::real) powi (- int k) = 1 / 2 ^ k"
    by (simp only: power_int_minus_divide power_int_of_nat)
  have "real_of_int N = real n * 2 ^ k" by (simp add: N_def)
  then have v: "real n = of_int N * 2 powi (- int k)" unfolding q by simp
  have "round_pos (of_int N * 2 powi (- int k)) = of_int N * 2 powi (- int k)"
    using N1 N2 by (rule round_pos_representable)
  then have "round_pos (real n) = real n" unfolding v [symmetric] .
  then show ?thesis using n by (simp add: rnd_def)
qed



lemma coef_value:
  assumes "0 < I" "2 * I \<le> S"
  shows "\<exists>x. ddiv (dmul (Fin 2) (double_of_size I)) (double_of_size S) = Fin x \<and>
           0 \<le> x \<and> x \<le> 1 \<and> x = rnd (2 * rnd (real I) / rnd (real S)) \<and>
           (S < 2 ^ 53 \<longrightarrow> x = rnd (2 * real I / real S))"
proof -
  let ?rI = "rnd (real I)"
  let ?rS = "rnd (real S)"
  have S: "0 < S" using assms by linarith
  have rI: "0 < ?rI" using assms(1) by (simp add: rnd_pos)
  have rS: "0 < ?rS" using S by (simp add: rnd_pos)
  have m: "rnd (2 * ?rI) = 2 * ?rI" by (simp only: rnd_double rnd_idem)
  have "2 * real I \<le> real S" using assms(2) by (metis of_nat_le_iff of_nat_mult of_nat_numeral)
  then have "rnd (2 * real I) \<le> ?rS" by (rule rnd_mono)
  then have le: "2 * ?rI \<le> ?rS" by (simp only: rnd_double)
  have q1: "2 * ?rI / ?rS \<le> 1" using le rS by simp
  have q0: "0 \<le> 2 * ?rI / ?rS" using rI rS by simp
  have b1: "rnd (2 * ?rI / ?rS) \<le> 1" using rnd_mono [OF q1] by (simp only: rnd_1)
  have b0: "0 \<le> rnd (2 * ?rI / ?rS)" using q0 by (rule rnd_nonneg)
  have "dmul (Fin 2) (double_of_size I) = Fin (2 * ?rI)"
    by (simp only: double_of_size_def dmul.simps m)
  moreover have "ddiv (Fin (2 * ?rI)) (double_of_size S) = Fin (rnd (2 * ?rI / ?rS))"
    using rS by (simp add: double_of_size_def)
  moreover have "rnd (2 * ?rI / ?rS) = rnd (2 * real I / real S)" if "S < 2 ^ 53"
  proof -
    have "I < 2 ^ 53" using that assms(2) by linarith
    then show ?thesis using that by (simp only: rnd_of_nat)
  qed
  ultimately show ?thesis using b0 b1 by simp
qed

section \<open>The multiset a counted profile stands for, and its representation invariant\<close>

definition impl_mset :: "bigram_cnt_t list \<Rightarrow> bigram_t multiset" where
  "impl_mset l = (\<Sum>bc\<leftarrow>l. replicate_mset (snd bc) (fst bc))"

definition impl_count :: "bigram_cnt_t list \<Rightarrow> nat" where
  "impl_count l = sum_list (map snd l)"

definition mset_of :: "basic_bigrams \<Rightarrow> bigram_t multiset" where
  "mset_of b = impl_mset (m_impl b)"

definition bigrams_inv :: "basic_bigrams \<Rightarrow> bool" where
  "bigrams_inv b \<longleftrightarrow>
     sorted_wrt (\<lambda>bc1 bc2. cmp bc1 bc2 < 0) (m_impl b) \<and>
     (\<forall>bc \<in> set (m_impl b). 1 \<le> snd bc) \<and>
     m_size b = impl_count (m_impl b)"

lemma of_char_less_int: "(of_char a :: int) < of_char b \<longleftrightarrow> a < b"
  by (simp add: less_char_def of_nat_of_char [where ?'a = int, symmetric])

lemma cmp_less_iff: "cmp x y < 0 \<longleftrightarrow> fst x < fst y"
  by (cases x; cases y) (auto simp: cmp_def Let_def less_prod_def of_char_less_int)

lemma cmp_eq_iff: "cmp x y = 0 \<longleftrightarrow> fst x = fst y"
  by (cases x; cases y) (auto simp: cmp_def Let_def prod_eq_iff)

lemma cmp_eq_iff': "0 = cmp x y \<longleftrightarrow> fst x = fst y"
  using cmp_eq_iff [of x y] by auto

lemma replicate_mset_sum: "replicate_mset (m + n) x = replicate_mset m x + replicate_mset n x"
  by (induction m) auto

lemma impl_mset_simps [simp]:
  "impl_mset [] = {#}"
  "impl_mset (bc # l) = replicate_mset (snd bc) (fst bc) + impl_mset l"
  "impl_mset (l @ l') = impl_mset l + impl_mset l'"
  by (simp_all add: impl_mset_def)

lemma impl_count_simps [simp]:
  "impl_count [] = 0"
  "impl_count (bc # l) = snd bc + impl_count l"
  "impl_count (l @ l') = impl_count l + impl_count l'"
  by (simp_all add: impl_count_def)

lemma size_impl_mset: "size (impl_mset l) = impl_count l"
  by (induction l) auto

lemma count_impl_mset_notin: "k \<notin> fst ` set l \<Longrightarrow> count (impl_mset l) k = 0"
  by (induction l) auto

subsection \<open>The merge of \<^verbatim>\<open>operator +=\<close>\<close>

lemma append_trailing_eq: "append_trailing other sz = (other, sz + impl_count other)"
  by (induction other arbitrary: sz) auto

lemma merge_loop_size: "snd (merge_loop mine other sz) = sz + impl_count other"
  by (induction mine other sz rule: merge_loop.induct)
     (auto simp: append_trailing_eq split: prod.splits)

lemma merge_loop_fst:
  "fst (merge_loop [] other sz) = other"
  "fst (merge_loop (m # ms) [] sz) = m # ms"
  "fst m < fst t \<Longrightarrow> fst (merge_loop (m # ms) (t # ts) sz) = m # fst (merge_loop ms (t # ts) sz)"
  "fst m = fst t \<Longrightarrow> fst (merge_loop (m # ms) (t # ts) sz) =
     (fst m, snd m + snd t) # fst (merge_loop ms ts (sz + snd t))"
  "fst t < fst m \<Longrightarrow> fst (merge_loop (m # ms) (t # ts) sz) =
     t # fst (merge_loop (m # ms) ts (sz + snd t))"
  by (auto simp: append_trailing_eq cmp_eq_iff' cmp_less_iff split: prod.splits)

lemma merge_induct [case_names Nil1 Nil2 Less Eq Greater]:
  assumes "\<And>other sz. P [] other sz"
    and "\<And>m ms sz. P (m # ms) [] sz"
    and "\<And>m ms t ts sz. fst m < fst t \<Longrightarrow> P ms (t # ts) sz \<Longrightarrow> P (m # ms) (t # ts) sz"
    and "\<And>m ms t ts sz. fst m = fst t \<Longrightarrow> P ms ts (sz + snd t) \<Longrightarrow> P (m # ms) (t # ts) sz"
    and "\<And>m ms t ts sz. fst t < fst m \<Longrightarrow> P (m # ms) ts (sz + snd t) \<Longrightarrow> P (m # ms) (t # ts) sz"
  shows "P (mine :: bigram_cnt_t list) (other :: bigram_cnt_t list) (sz :: nat)"
proof (induction mine other sz rule: merge_loop.induct)
  case (1 other sz)
  show ?case by (rule assms(1))
next
  case (2 m ms sz)
  show ?case by (rule assms(2))
next
  case (3 m ms t ts sz)
  consider (lt) "fst m < fst t" | (eq) "fst m = fst t" | (gt) "fst t < fst m"
    by (meson linorder_less_linear)
  then show ?case
  proof cases
    case lt
    then show ?thesis using 3(1) assms(3) by (simp add: cmp_less_iff)
  next
    case eq
    then show ?thesis using 3(2) assms(4) by (simp add: cmp_less_iff cmp_eq_iff')
  next
    case gt
    then have "\<not> cmp m t < 0" "0 \<noteq> cmp m t" by (auto simp: cmp_less_iff cmp_eq_iff')
    then show ?thesis using 3(3) assms(5) gt by blast
  qed
qed

lemma merge_loop_mset:
  "impl_mset (fst (merge_loop mine other sz)) = impl_mset mine + impl_mset other"
  by (induction mine other sz rule: merge_induct)
     (simp_all add: merge_loop_fst replicate_mset_sum del: merge_loop.simps)

lemma merge_loop_keys:
  "fst ` set (fst (merge_loop mine other sz)) = fst ` set mine \<union> fst ` set other"
  by (induction mine other sz rule: merge_induct)
     (auto simp add: merge_loop_fst simp del: merge_loop.simps)

lemma merge_loop_pos:
  "\<forall>bc\<in>set mine. 1 \<le> snd bc \<Longrightarrow> \<forall>bc\<in>set other. 1 \<le> snd bc \<Longrightarrow>
   \<forall>bc\<in>set (fst (merge_loop mine other sz)). 1 \<le> snd bc"
  by (induction mine other sz rule: merge_loop.induct)
     (auto simp: append_trailing_eq split: prod.splits)

definition keys_sorted :: "bigram_cnt_t list \<Rightarrow> bool" where
  "keys_sorted l = sorted_wrt (\<lambda>bc1 bc2. cmp bc1 bc2 < 0) l"

lemma keys_sorted_Cons: "keys_sorted (x # l) \<longleftrightarrow> (\<forall>k\<in>fst ` set l. fst x < k) \<and> keys_sorted l"
  by (auto simp: keys_sorted_def cmp_less_iff)

lemma keys_sorted_Nil [simp]: "keys_sorted []"
  by (simp add: keys_sorted_def)

lemma merge_loop_sorted:
  "keys_sorted mine \<Longrightarrow> keys_sorted other \<Longrightarrow> keys_sorted (fst (merge_loop mine other sz))"
proof (induction mine other sz rule: merge_induct)
  case (Nil1 other sz)
  then show ?case by (simp add: merge_loop_fst del: merge_loop.simps)
next
  case (Nil2 m ms sz)
  then show ?case by (simp add: merge_loop_fst del: merge_loop.simps)
next
  case (Less m ms t ts sz)
  then have "keys_sorted (fst (merge_loop ms (t # ts) sz))"
    by (simp add: keys_sorted_Cons)
  moreover have "\<forall>k\<in>fst ` set (fst (merge_loop ms (t # ts) sz)). fst m < k"
    unfolding merge_loop_keys using Less by (fastforce simp: keys_sorted_Cons)
  ultimately show ?case using Less(1)
    by (simp add: merge_loop_fst keys_sorted_Cons del: merge_loop.simps)
next
  case (Eq m ms t ts sz)
  then have "keys_sorted (fst (merge_loop ms ts (sz + snd t)))"
    by (simp add: keys_sorted_Cons)
  moreover have "\<forall>k\<in>fst ` set (fst (merge_loop ms ts (sz + snd t))). fst m < k"
    unfolding merge_loop_keys using Eq by (fastforce simp: keys_sorted_Cons)
  ultimately show ?case using Eq(1)
    by (simp add: merge_loop_fst keys_sorted_Cons del: merge_loop.simps)
next
  case (Greater m ms t ts sz)
  then have "keys_sorted (fst (merge_loop (m # ms) ts (sz + snd t)))"
    by (simp add: keys_sorted_Cons)
  moreover have "\<forall>k\<in>fst ` set (fst (merge_loop (m # ms) ts (sz + snd t))). fst t < k"
    unfolding merge_loop_keys using Greater by (fastforce simp: keys_sorted_Cons)
  ultimately show ?case using Greater(1)
    by (simp add: merge_loop_fst keys_sorted_Cons del: merge_loop.simps)
qed

subsection \<open>The intersection size\<close>

lemma intersect_induct [case_names Nil1 Nil2 Less Eq Greater]:
  assumes "\<And>l2 sz. P [] l2 sz"
    and "\<And>m ms sz. P (m # ms) [] sz"
    and "\<And>m ms t ts sz. fst m < fst t \<Longrightarrow> P ms (t # ts) sz \<Longrightarrow> P (m # ms) (t # ts) sz"
    and "\<And>m ms t ts sz. fst m = fst t \<Longrightarrow> P ms ts (sz + min (snd m) (snd t)) \<Longrightarrow> P (m # ms) (t # ts) sz"
    and "\<And>m ms t ts sz. fst t < fst m \<Longrightarrow> P (m # ms) ts sz \<Longrightarrow> P (m # ms) (t # ts) sz"
  shows "P (l1 :: bigram_cnt_t list) (l2 :: bigram_cnt_t list) (sz :: nat)"
proof (induction l1 l2 sz rule: intersect_loop.induct)
  case (1 m ms t ts sz)
  consider (lt) "fst m < fst t" | (eq) "fst m = fst t" | (gt) "fst t < fst m"
    by (meson linorder_less_linear)
  then show ?case
  proof cases
    case lt
    then show ?thesis using 1(1) assms(3) by (simp add: cmp_less_iff)
  next
    case eq
    then show ?thesis using 1(2) assms(4) by (simp add: cmp_less_iff cmp_eq_iff)
  next
    case gt
    then have "\<not> cmp m t < 0" "cmp m t \<noteq> 0" by (auto simp: cmp_less_iff cmp_eq_iff)
    then show ?thesis using 1(3) assms(5) gt by blast
  qed
next
  case (2 uu sz)
  show ?case by (rule assms(1))
next
  case (3 bg1 rest1 sz)
  show ?case by (rule assms(2))
qed

lemma intersect_loop_simps':
  "intersect_loop [] l2 sz = sz"
  "intersect_loop l1 [] sz = sz"
  "fst m < fst t \<Longrightarrow> intersect_loop (m # ms) (t # ts) sz = intersect_loop ms (t # ts) sz"
  "fst m = fst t \<Longrightarrow> intersect_loop (m # ms) (t # ts) sz = intersect_loop ms ts (sz + min (snd m) (snd t))"
  "fst t < fst m \<Longrightarrow> intersect_loop (m # ms) (t # ts) sz = intersect_loop (m # ms) ts sz"
  by (cases l1; auto simp: cmp_eq_iff cmp_less_iff)+

lemma intersect_loop_le:
  "intersect_loop l1 l2 sz \<le> sz + min (impl_count l1) (impl_count l2)"
  by (induction l1 l2 sz rule: intersect_induct)
     (auto simp add: intersect_loop_simps' simp del: intersect_loop.simps)

lemma inter_mset_drop_left:
  "count N k = 0 \<Longrightarrow> (replicate_mset c k + M) \<inter># N = M \<inter># N"
  by (rule multiset_eqI) auto

lemma inter_mset_drop_right:
  "count M k = 0 \<Longrightarrow> M \<inter># (replicate_mset c k + N) = M \<inter># N"
  by (rule multiset_eqI) auto

lemma inter_mset_both:
  "count M k = 0 \<Longrightarrow> count N k = 0 \<Longrightarrow>
   (replicate_mset c k + M) \<inter># (replicate_mset d k + N) = replicate_mset (min c d) k + (M \<inter># N)"
  by (rule multiset_eqI) auto

lemma intersect_loop_eq:
  "keys_sorted l1 \<Longrightarrow> keys_sorted l2 \<Longrightarrow>
   intersect_loop l1 l2 sz = sz + size (impl_mset l1 \<inter># impl_mset l2)"
proof (induction l1 l2 sz rule: intersect_induct)
  case (Nil1 l2 sz)
  then show ?case by (simp add: intersect_loop_simps' del: intersect_loop.simps)
next
  case (Nil2 m ms sz)
  then show ?case by (simp add: intersect_loop_simps' del: intersect_loop.simps)
next
  case (Less m ms t ts sz)
  have "fst m \<notin> fst ` set (t # ts)" using Less(1,4) by (fastforce simp: keys_sorted_Cons)
  then have "count (impl_mset (t # ts)) (fst m) = 0" by (rule count_impl_mset_notin)
  then have "impl_mset (m # ms) \<inter># impl_mset (t # ts) = impl_mset ms \<inter># impl_mset (t # ts)"
    using inter_mset_drop_left [of "impl_mset (t # ts)" "fst m" "snd m" "impl_mset ms"] by simp
  then show ?case using Less
    by (simp add: intersect_loop_simps' keys_sorted_Cons del: intersect_loop.simps impl_mset_simps)
next
  case (Eq m ms t ts sz)
  have "fst m \<notin> fst ` set ms" "fst m \<notin> fst ` set ts"
    using Eq(1,3,4) by (fastforce simp: keys_sorted_Cons)+
  then have "count (impl_mset ms) (fst m) = 0" "count (impl_mset ts) (fst m) = 0"
    by (simp_all add: count_impl_mset_notin)
  then have "impl_mset (m # ms) \<inter># impl_mset (t # ts) =
      replicate_mset (min (snd m) (snd t)) (fst m) + (impl_mset ms \<inter># impl_mset ts)"
    using inter_mset_both [of "impl_mset ms" "fst m" "impl_mset ts" "snd m" "snd t"] Eq(1) by simp
  then show ?case using Eq
    by (simp add: intersect_loop_simps' keys_sorted_Cons del: intersect_loop.simps impl_mset_simps)
next
  case (Greater m ms t ts sz)
  have "fst t \<notin> fst ` set (m # ms)" using Greater(1,3) by (fastforce simp: keys_sorted_Cons)
  then have "count (impl_mset (m # ms)) (fst t) = 0" by (rule count_impl_mset_notin)
  then have "impl_mset (m # ms) \<inter># impl_mset (t # ts) = impl_mset (m # ms) \<inter># impl_mset ts"
    using inter_mset_drop_right [of "impl_mset (m # ms)" "fst t" "snd t" "impl_mset ts"]
    by simp
  then show ?case using Greater
    by (simp add: intersect_loop_simps' keys_sorted_Cons del: intersect_loop.simps impl_mset_simps)
qed

subsection \<open>The constructor from a string, the union\<close>

lemma keys_sorted_snoc:
  "keys_sorted (l @ [y]) \<longleftrightarrow> keys_sorted l \<and> (\<forall>k\<in>fst ` set l. k < fst y)"
  by (auto simp: keys_sorted_def sorted_wrt_append cmp_less_iff)

lemma unify_mset: "impl_mset (unify (pre @ [x]) bs) = impl_mset (pre @ [x]) + mset bs"
proof (induction bs arbitrary: pre x)
  case Nil
  show ?case by simp
next
  case (Cons b rest)
  show ?case
  proof (cases "fst x = b")
    case True
    then show ?thesis using Cons [of pre "(fst x, snd x + 1)"] by simp
  next
    case False
    then show ?thesis using Cons [of "pre @ [x]" "(b, 1)"] by simp
  qed
qed

lemma unify_count: "impl_count (unify (pre @ [x]) bs) = impl_count (pre @ [x]) + length bs"
proof (induction bs arbitrary: pre x)
  case Nil
  show ?case by simp
next
  case (Cons b rest)
  show ?case
  proof (cases "fst x = b")
    case True
    then show ?thesis using Cons [of pre "(fst x, snd x + 1)"] by simp
  next
    case False
    then show ?thesis using Cons [of "pre @ [x]" "(b, 1)"] by simp
  qed
qed

lemma unify_pos:
  "\<forall>bc\<in>set (pre @ [x]). 1 \<le> snd bc \<Longrightarrow> \<forall>bc\<in>set (unify (pre @ [x]) bs). 1 \<le> snd bc"
proof (induction bs arbitrary: pre x)
  case Nil
  then show ?case by simp
next
  case (Cons b rest)
  show ?case
  proof (cases "fst x = b")
    case True
    have "\<forall>bc\<in>set (pre @ [(fst x, snd x + 1)]). 1 \<le> snd bc" using Cons.prems by auto
    from Cons.IH [OF this] show ?thesis using True by simp
  next
    case False
    have "\<forall>bc\<in>set ((pre @ [x]) @ [(b, 1)]). 1 \<le> snd bc" using Cons.prems by auto
    from Cons.IH [OF this] show ?thesis using False by simp
  qed
qed

lemma unify_sorted:
  "keys_sorted (pre @ [x]) \<Longrightarrow> sorted (fst x # bs) \<Longrightarrow> keys_sorted (unify (pre @ [x]) bs)"
proof (induction bs arbitrary: pre x)
  case Nil
  then show ?case by simp
next
  case (Cons b rest)
  show ?case
  proof (cases "fst x = b")
    case True
    have "keys_sorted (pre @ [(fst x, snd x + 1)])"
      using Cons.prems(1) by (simp add: keys_sorted_snoc)
    moreover have "sorted (fst (fst x, snd x + 1) # rest)"
      using Cons.prems(2) by simp
    ultimately show ?thesis using Cons.IH [of pre "(fst x, snd x + 1)"] True by simp
  next
    case False
    then have lt: "fst x < b" using Cons.prems(2) by (simp add: order_less_le)
    have "keys_sorted ((pre @ [x]) @ [(b, 1)])"
      using Cons.prems(1) lt by (subst keys_sorted_snoc) (auto simp: keys_sorted_snoc)
    moreover have "sorted (fst (b, 1::nat) # rest)"
      using Cons.prems(2) by simp
    ultimately show ?thesis using Cons.IH [of "pre @ [x]" "(b, 1)"] False by simp
  qed
qed

lemma length_create_bigrams: "length (create_bigrams str) = length str - 1"
  by (simp add: create_bigrams_def)

lemma bigrams_of_string_impl:
  assumes "2 \<le> length str"
  shows "keys_sorted (m_impl (bigrams_of_string str))"
    and "\<forall>bc\<in>set (m_impl (bigrams_of_string str)). 1 \<le> snd bc"
    and "impl_count (m_impl (bigrams_of_string str)) = length str - 1"
    and "impl_mset (m_impl (bigrams_of_string str)) = mset (create_bigrams str)"
    and "m_size (bigrams_of_string str) = length str - 1"
proof -
  define vec where "vec = sort (create_bigrams str)"
  have len: "length vec = length str - 1" by (simp add: vec_def length_create_bigrams)
  then have ne: "vec \<noteq> []" using assms by auto
  then have vec: "vec = hd vec # tl vec" by simp
  have srt: "sorted (hd vec # tl vec)" using vec by (metis sorted_sort vec_def)
  have impl: "m_impl (bigrams_of_string str) = unify ([] @ [(hd vec, 1)]) (tl vec)"
    using assms by (simp add: bigrams_of_string_def vec_def Let_def)
  show "keys_sorted (m_impl (bigrams_of_string str))"
    unfolding impl using srt by (intro unify_sorted) (simp_all add: keys_sorted_def)
  show "\<forall>bc\<in>set (m_impl (bigrams_of_string str)). 1 \<le> snd bc"
    unfolding impl by (intro unify_pos) simp
  show "impl_count (m_impl (bigrams_of_string str)) = length str - 1"
    unfolding impl unify_count using len ne by (cases vec) auto
  have "impl_mset (m_impl (bigrams_of_string str)) = mset (hd vec # tl vec)"
    unfolding impl unify_mset by simp
  also have "\<dots> = mset vec" using vec by simp
  also have "\<dots> = mset (create_bigrams str)" by (simp add: vec_def)
  finally show "impl_mset (m_impl (bigrams_of_string str)) = mset (create_bigrams str)" .
  show "m_size (bigrams_of_string str) = length str - 1"
    using assms len by (simp add: bigrams_of_string_def vec_def Let_def)
qed

lemma bigrams_inv_alt:
  "bigrams_inv b \<longleftrightarrow> keys_sorted (m_impl b) \<and> (\<forall>bc \<in> set (m_impl b). 1 \<le> snd bc) \<and>
     m_size b = impl_count (m_impl b)"
  by (simp add: bigrams_inv_def keys_sorted_def)

lemma bigrams_inv_empty: "bigrams_inv bigrams_empty"
  by (simp add: bigrams_inv_alt bigrams_empty_def)

lemma bigrams_inv_of_string: "bigrams_inv (bigrams_of_string str)"
proof (cases "2 \<le> length str")
  case True
  then show ?thesis using bigrams_of_string_impl [OF True] by (simp add: bigrams_inv_alt)
next
  case False
  then show ?thesis by (simp add: bigrams_of_string_def bigrams_inv_empty)
qed

lemma bsize_of_string: "bsize (bigrams_of_string str) = length str - 1"
proof (cases "2 \<le> length str")
  case True
  then show ?thesis using bigrams_of_string_impl(5) [OF True] by (simp add: bsize_def)
next
  case False
  then show ?thesis by (simp add: bigrams_of_string_def bigrams_empty_def bsize_def)
qed

lemma mset_of_string: "mset_of (bigrams_of_string str) = mset (create_bigrams str)"
proof (cases "2 \<le> length str")
  case True
  then show ?thesis using bigrams_of_string_impl(4) [OF True] by (simp add: mset_of_def)
next
  case False
  then have "length str - 1 = 0" by simp
  then show ?thesis using False
    by (simp add: bigrams_of_string_def bigrams_empty_def mset_of_def create_bigrams_def)
qed

lemma plus_assign_alt:
  "plus_assign this other =
     (if bsize this = 0 then other
      else \<lparr>m_impl = fst (merge_loop (m_impl this) (m_impl other) (m_size this)),
            m_size = snd (merge_loop (m_impl this) (m_impl other) (m_size this))\<rparr>)"
  by (simp add: plus_assign_def case_prod_beta)

lemma plus_assign_inv:
  assumes "bigrams_inv this" "bigrams_inv other"
  shows "bigrams_inv (plus_assign this other)"
proof (cases "bsize this = 0")
  case True
  then show ?thesis using assms by (simp add: plus_assign_def)
next
  case False
  obtain impl sz where ml: "merge_loop (m_impl this) (m_impl other) (m_size this) = (impl, sz)"
    by (cases "merge_loop (m_impl this) (m_impl other) (m_size this)")
  have impl: "impl = fst (merge_loop (m_impl this) (m_impl other) (m_size this))"
    and sz: "sz = snd (merge_loop (m_impl this) (m_impl other) (m_size this))"
    using ml by simp_all
  have pa: "plus_assign this other = \<lparr>m_impl = impl, m_size = sz\<rparr>"
    using False ml by (simp add: plus_assign_def)
  have "keys_sorted impl" unfolding impl using assms by (intro merge_loop_sorted) (simp_all add: bigrams_inv_alt)
  moreover have "\<forall>bc\<in>set impl. 1 \<le> snd bc" unfolding impl using assms
    by (intro merge_loop_pos) (simp_all add: bigrams_inv_alt)
  moreover have "impl_count impl = impl_count (m_impl this) + impl_count (m_impl other)"
    using merge_loop_mset [of "m_impl this" "m_impl other" "m_size this"]
    unfolding impl size_impl_mset [symmetric] by simp
  moreover have "sz = m_size this + impl_count (m_impl other)"
    unfolding sz by (rule merge_loop_size)
  ultimately show ?thesis using assms by (simp add: pa bigrams_inv_alt)
qed

lemma plus_assign_size:
  assumes "bigrams_inv other"
  shows "bsize (plus_assign this other) = bsize this + bsize other"
proof (cases "bsize this = 0")
  case True
  then show ?thesis by (simp add: plus_assign_def)
next
  case False
  then show ?thesis using assms
    by (simp add: plus_assign_alt merge_loop_size bsize_def bigrams_inv_alt)
qed

lemma bigrams_inv_size0: "bigrams_inv b \<Longrightarrow> bsize b = 0 \<Longrightarrow> m_impl b = []"
proof (cases "m_impl b")
  case Nil
  then show ?thesis by simp
next
  case (Cons x l)
  assume "bigrams_inv b" "bsize b = 0"
  then have "1 \<le> snd x" "snd x + impl_count l = 0"
    using Cons by (simp_all add: bigrams_inv_alt bsize_def)
  then show ?thesis by simp
qed

lemma plus_assign_mset:
  assumes "bigrams_inv this"
  shows "mset_of (plus_assign this other) = mset_of this + mset_of other"
proof (cases "bsize this = 0")
  case True
  then show ?thesis using bigrams_inv_size0 [OF assms True] by (simp add: plus_assign_def mset_of_def)
next
  case False
  then show ?thesis
    by (simp add: plus_assign_alt mset_of_def merge_loop_mset)
qed

lemma bplus_eq: "bplus this other = plus_assign other this"
  by (simp add: bplus_def)

lemma unite_inv:
  "bigrams_inv arg \<Longrightarrow> \<forall>a\<in>set args. bigrams_inv a \<Longrightarrow> bigrams_inv (unite arg args)"
  by (induction arg args rule: unite.induct) (auto intro: plus_assign_inv)


lemma unite_mset:
  "bigrams_inv arg \<Longrightarrow> \<forall>a\<in>set args. bigrams_inv a \<Longrightarrow>
   mset_of (unite arg args) = mset_of arg + sum_list (map mset_of args)"
  by (induction arg args rule: unite.induct) (auto simp: plus_assign_mset unite_inv)

lemma intersect_size_eq:
  "bigrams_inv b1 \<Longrightarrow> bigrams_inv b2 \<Longrightarrow> intersect_size b1 b2 = size (mset_of b1 \<inter># mset_of b2)"
  by (simp add: intersect_size_def mset_of_def bigrams_inv_alt intersect_loop_eq)


section \<open>Bigram multisets: \<^verbatim>\<open>basic_bigram_multiset\<close>\<close>

text \<open>
  The class is a template over its container. A container is modelled by the list of its
  elements in iteration order, and the template by functions that take the container's
  insertion \<open>ins\<close>. For \<^verbatim>\<open>std::multiset\<close> the insertion keeps the list sorted. For
  \<^verbatim>\<open>std::unordered_multiset\<close> the iteration order is the library's choice: the insertion is
  a parameter, of which only \<^term>\<open>container_insert ins\<close> is known (the element is added,
  nothing else changes). \<^verbatim>\<open>std::set_intersection\<close> is the standard merge loop over the two
  iteration orders; the output iterator of the code counts its assignments.
\<close>

definition multiset_insert :: "bigram_t \<Rightarrow> bigram_t list \<Rightarrow> bigram_t list" where
  "multiset_insert bigram impl = insort bigram impl"

definition container_insert :: "(bigram_t \<Rightarrow> bigram_t list \<Rightarrow> bigram_t list) \<Rightarrow> bool" where
  "container_insert ins \<longleftrightarrow> (\<forall>bigram impl. mset (ins bigram impl) = add_mset bigram (mset impl))"

definition bm_of_string :: "(bigram_t \<Rightarrow> bigram_t list \<Rightarrow> bigram_t list) \<Rightarrow> string \<Rightarrow> bigram_t list" where
  "bm_of_string ins str =
     (if length str > 1
      then fold (\<lambda>i impl. ins (str ! i, str ! (i + 1)) impl) [0..<length str - 1] []
      else [])"

definition bm_size :: "bigram_t list \<Rightarrow> nat" where
  "bm_size impl = length impl"

definition bm_plus_assign ::
  "(bigram_t \<Rightarrow> bigram_t list \<Rightarrow> bigram_t list) \<Rightarrow> bigram_t list \<Rightarrow> bigram_t list \<Rightarrow> bigram_t list" where
  "bm_plus_assign ins this other = (if bm_size this = 0 then other else fold ins other this)"



function set_intersection :: "bigram_t list \<Rightarrow> bigram_t list \<Rightarrow> nat \<Rightarrow> nat" where
  "set_intersection (x # first1) (y # first2) cnt =
     (if x < y then set_intersection first1 (y # first2) cnt
      else if y < x then set_intersection (x # first1) first2 cnt
      else set_intersection first1 first2 (cnt + 1))"
| "set_intersection [] first2 cnt = cnt"
| "set_intersection (x # first1) [] cnt = cnt"
  by pat_completeness auto
termination
  by (relation "measure (\<lambda>(l1, l2, cnt). length l1 + length l2)") auto

definition bm_intersect_size :: "bigram_t list \<Rightarrow> bigram_t list \<Rightarrow> nat" where
  "bm_intersect_size bigrams1 bigrams2 = set_intersection bigrams1 bigrams2 0"

definition bm_sorensen_dice_coef :: "bigram_t list \<Rightarrow> bigram_t list \<Rightarrow> double" where
  "bm_sorensen_dice_coef bigrams1 bigrams2 =
     (let isect_size = bm_intersect_size bigrams1 bigrams2 in
      if isect_size \<noteq> 0
      then ddiv (dmul (Fin 2) (double_of_size isect_size))
                (double_of_size (bm_size bigrams1 + bm_size bigrams2))
      else Fin 0)"


lemma container_insert_multiset: "container_insert multiset_insert"
  by (simp add: container_insert_def multiset_insert_def)

lemma container_insert_Cons: "container_insert (#)"
  by (simp add: container_insert_def)

lemma container_insertD:
  "container_insert ins \<Longrightarrow> mset (ins bigram impl) = add_mset bigram (mset impl)"
  unfolding container_insert_def by blast

lemma fold_ins_mset:
  "container_insert ins \<Longrightarrow> mset (fold (\<lambda>x impl. ins (f x) impl) l acc) = mset (map f l) + mset acc"
  by (induction l arbitrary: acc) (simp_all add: container_insertD)

lemma bm_of_string_mset:
  assumes "container_insert ins"
  shows "mset (bm_of_string ins str) = mset (create_bigrams str)"
proof (cases "length str > 1")
  case True
  then show ?thesis
    unfolding bm_of_string_def create_bigrams_def
    using fold_ins_mset [OF assms, of "\<lambda>i. (str ! i, str ! (i + 1))" "[0..<length str - 1]" "[]"]
    by (simp only: if_True mset.simps add_0_right)
next
  case False
  then have "length str - 1 = 0" by simp
  then show ?thesis using False by (simp add: bm_of_string_def create_bigrams_def)
qed

lemma bm_of_string_size:
  assumes "container_insert ins"
  shows "bm_size (bm_of_string ins str) = length str - 1"
proof -
  have "size (mset (bm_of_string ins str)) = size (mset (create_bigrams str))"
    using bm_of_string_mset [OF assms] by simp
  then show ?thesis by (simp add: bm_size_def length_create_bigrams)
qed




lemma set_intersection_le:
  "set_intersection l1 l2 cnt \<le> cnt + min (length l1) (length l2)"
  by (induction l1 l2 cnt rule: set_intersection.induct) auto

lemma set_intersection_sorted:
  "sorted l1 \<Longrightarrow> sorted l2 \<Longrightarrow> set_intersection l1 l2 cnt = cnt + size (mset l1 \<inter># mset l2)"
proof (induction l1 l2 cnt rule: set_intersection.induct)
  case (1 x first1 y first2 cnt)
  consider (lt) "x < y" | (gt) "y < x" | (eq) "x = y" by (meson linorder_less_linear)
  then show ?case
  proof cases
    case lt
    then have "x \<notin> set (y # first2)" using 1(5) by auto
    then have "\<not> x \<in># mset (y # first2)" by (simp only: set_mset_mset not_False_eq_True)
    then have "add_mset x (mset first1) \<inter># mset (y # first2) = mset first1 \<inter># mset (y # first2)"
      by (rule inter_add_left1)
    then show ?thesis using 1 lt by simp
  next
    case gt
    then have "y \<notin> set (x # first1)" using 1(4) by auto
    then have "\<not> y \<in># mset (x # first1)" by (simp only: set_mset_mset not_False_eq_True)
    then have "mset (x # first1) \<inter># add_mset y (mset first2) = mset (x # first1) \<inter># mset first2"
      by (rule inter_add_right1)
    moreover have "\<not> x < y" using gt by (simp add: not_less_iff_gr_or_eq)
    ultimately show ?thesis using 1 gt by simp
  next
    case eq
    then show ?thesis using 1 by simp
  qed
qed simp_all

lemma sorted_fold_insort:
  "sorted acc \<Longrightarrow> sorted (fold (\<lambda>x impl. multiset_insert (f x) impl) l acc)"
  by (induction l arbitrary: acc) (auto simp: multiset_insert_def sorted_insort)

lemma sorted_bm_of_string: "sorted (bm_of_string multiset_insert str)"
  by (simp add: bm_of_string_def sorted_fold_insort)

lemma sorted_bm_plus_assign:
  "sorted this \<Longrightarrow> sorted other \<Longrightarrow> sorted (bm_plus_assign multiset_insert this other)"
  using sorted_fold_insort [of this "\<lambda>x. x" other] by (simp add: bm_plus_assign_def)

datatype mx_cell = NONE | SIZE nat | BIGRAMS basic_bigrams

record sequence_matcher =
  m_mx :: "mx_cell list list"
  m_strip_ixs :: "nat set"

definition matcher_new :: sequence_matcher where
  "matcher_new = \<lparr>m_mx = [], m_strip_ixs = {}\<rparr>"

definition msize :: "sequence_matcher \<Rightarrow> nat" where
  "msize m = length (m_mx m)"

definition add_row :: "sequence_matcher \<Rightarrow> sequence_matcher" where
  "add_row m = m\<lparr>m_mx := m_mx m @ [[]]\<rparr>"

definition emplace_back_cell :: "nat \<Rightarrow> mx_cell \<Rightarrow> mx_cell list list \<Rightarrow> mx_cell list list" where
  "emplace_back_cell i c mx = mx[i := mx ! i @ [c]]"

definition push_back :: "basic_bigrams \<Rightarrow> bool \<Rightarrow> sequence_matcher \<Rightarrow> sequence_matcher" where
  "push_back bgrms strip m =
     (let m1 = (if strip then m\<lparr>m_strip_ixs := insert (msize m) (m_strip_ixs m)\<rparr> else m);
          m2 = add_row m1;
          mx = emplace_back_cell 0 (BIGRAMS bgrms) (m_mx m2)
      in m2\<lparr>m_mx := fold (\<lambda>i. emplace_back_cell i NONE) [1..<length mx] mx\<rparr>)"

definition emplace_back :: "string \<Rightarrow> bool \<Rightarrow> sequence_matcher \<Rightarrow> sequence_matcher" where
  "emplace_back str strip m = push_back (bigrams_of_string str) strip m"

definition sub_ix :: "nat \<Rightarrow> nat \<Rightarrow> nat \<times> nat \<times> nat \<times> nat" where
  "sub_ix i j = (let i1 = i div 2; j1 = j; i2 = i1 + 1; j2 = j + i2 in (i1, j1, i - i2, j2))"

definition set_cell :: "nat \<Rightarrow> nat \<Rightarrow> mx_cell \<Rightarrow> sequence_matcher \<Rightarrow> sequence_matcher" where
  "set_cell i j c m = m\<lparr>m_mx := (m_mx m)[i := (m_mx m ! i)[j := c]]\<rparr>"

definition set_size :: "nat \<Rightarrow> nat \<Rightarrow> nat \<Rightarrow> sequence_matcher \<Rightarrow> sequence_matcher option" where
  "set_size i j sz m = (if m_mx m ! i ! j = NONE then Some (set_cell i j (SIZE sz) m) else None)"

definition set_bigrams :: "nat \<Rightarrow> nat \<Rightarrow> basic_bigrams \<Rightarrow> sequence_matcher \<Rightarrow> sequence_matcher option" where
  "set_bigrams i j bgrms m =
     (case m_mx m ! i ! j of BIGRAMS _ \<Rightarrow> None | _ \<Rightarrow> Some (set_cell i j (BIGRAMS bgrms) m))"

function bigrams_size :: "nat \<Rightarrow> nat \<Rightarrow> sequence_matcher \<Rightarrow> (nat \<times> sequence_matcher) option" where
  "bigrams_size i j m =
     (if \<not> i < msize m then None
      else if \<not> j < length (m_mx m ! i) then None
      else case m_mx m ! i ! j of
             SIZE n \<Rightarrow> Some (n, m)
           | BIGRAMS b \<Rightarrow> Some (bsize b, m)
           | NONE \<Rightarrow>
               if i = 0 then None
               else (case bigrams_size (fst (sub_ix i j)) (fst (snd (sub_ix i j))) m of
                       None \<Rightarrow> None
                     | Some (r1, m1) \<Rightarrow>
                        (case bigrams_size (fst (snd (snd (sub_ix i j)))) (snd (snd (snd (sub_ix i j)))) m1 of
                           None \<Rightarrow> None
                         | Some (r2, m2) \<Rightarrow>
                            (case set_size i j (r1 + r2) m2 of
                               None \<Rightarrow> None
                             | Some m3 \<Rightarrow> Some (r1 + r2, m3)))))"
  by pat_completeness auto
termination
  by (relation "measure (\<lambda>(i, j, m). i)") (auto simp: sub_ix_def Let_def)

declare bigrams_size.simps [simp del]

function bigrams :: "nat \<Rightarrow> nat \<Rightarrow> sequence_matcher \<Rightarrow> (basic_bigrams \<times> sequence_matcher) option" where
  "bigrams i j m =
     (if \<not> i < msize m then None
      else if \<not> j < length (m_mx m ! i) then None
      else case m_mx m ! i ! j of
             BIGRAMS b \<Rightarrow> Some (b, m)
           | _ \<Rightarrow>
               if i = 0 then None
               else (case bigrams (fst (sub_ix i j)) (fst (snd (sub_ix i j))) m of
                       None \<Rightarrow> None
                     | Some (b1, m1) \<Rightarrow>
                        (case bigrams (fst (snd (snd (sub_ix i j)))) (snd (snd (snd (sub_ix i j)))) m1 of
                           None \<Rightarrow> None
                         | Some (b2, m2) \<Rightarrow>
                            (case set_bigrams i j (bplus b1 b2) m2 of
                               None \<Rightarrow> None
                             | Some m3 \<Rightarrow> Some (bplus b1 b2, m3)))))"
  by pat_completeness auto
termination
  by (relation "measure (\<lambda>(i, j, m). i)") (auto simp: sub_ix_def Let_def)

declare bigrams.simps [simp del]

lemma msize_set_cell [simp]: "msize (set_cell i j c m) = msize m"
  by (simp add: set_cell_def msize_def)

lemma strip_set_cell [simp]: "m_strip_ixs (set_cell i j c m) = m_strip_ixs m"
  by (simp add: set_cell_def)

lemma bigrams_size_msize:
  "bigrams_size i j m = Some (r, m') \<Longrightarrow> msize m' = msize m \<and> m_strip_ixs m' = m_strip_ixs m"
proof (induction i j m arbitrary: r m' rule: bigrams_size.induct)
  case (1 i j m)
  show ?case
  proof (cases "m_mx m ! i ! j")
    case NONE
    from "1.prems" NONE obtain r1 m1 r2 m2 where
      ne: "i \<noteq> 0" "i < msize m" "j < length (m_mx m ! i)" and
      c1: "bigrams_size (fst (sub_ix i j)) (fst (snd (sub_ix i j))) m = Some (r1, m1)" and
      c2: "bigrams_size (fst (snd (snd (sub_ix i j)))) (snd (snd (snd (sub_ix i j)))) m1 = Some (r2, m2)" and
      c3: "set_size i j (r1 + r2) m2 = Some m'"
      by (subst (asm) bigrams_size.simps) (auto split: if_splits option.splits)
    have "msize m1 = msize m \<and> m_strip_ixs m1 = m_strip_ixs m"
      using "1.IH"(1) [OF _ _ NONE _ c1] ne by simp
    moreover have "msize m2 = msize m1 \<and> m_strip_ixs m2 = m_strip_ixs m1"
      using "1.IH"(2) [OF _ _ NONE _ c1 refl c2] ne by simp
    moreover have "msize m' = msize m2 \<and> m_strip_ixs m' = m_strip_ixs m2"
      using c3 by (auto simp: set_size_def split: if_splits)
    ultimately show ?thesis by simp
  next
    case (SIZE n)
    then show ?thesis using "1.prems"
      by (subst (asm) bigrams_size.simps) (auto split: if_splits)
  next
    case (BIGRAMS b)
    then show ?thesis using "1.prems"
      by (subst (asm) bigrams_size.simps) (auto split: if_splits)
  qed
qed

lemma bigrams_msize:
  "bigrams i j m = Some (r, m') \<Longrightarrow> msize m' = msize m \<and> m_strip_ixs m' = m_strip_ixs m"
proof (induction i j m arbitrary: r m' rule: bigrams.induct)
  case (1 i j m)
  show ?case
  proof (cases "\<exists>b. m_mx m ! i ! j = BIGRAMS b")
    case True
    then show ?thesis using "1.prems"
      by (subst (asm) bigrams.simps) (auto split: if_splits)
  next
    case False
    from "1.prems" False obtain b1 m1 b2 m2 where
      ne: "i \<noteq> 0" "i < msize m" "j < length (m_mx m ! i)" and
      c1: "bigrams (fst (sub_ix i j)) (fst (snd (sub_ix i j))) m = Some (b1, m1)" and
      c2: "bigrams (fst (snd (snd (sub_ix i j)))) (snd (snd (snd (sub_ix i j)))) m1 = Some (b2, m2)" and
      c3: "set_bigrams i j (bplus b1 b2) m2 = Some m'"
      by (subst (asm) bigrams.simps) (auto split: if_splits option.splits mx_cell.splits)
    have c3': "msize m' = msize m2 \<and> m_strip_ixs m' = m_strip_ixs m2"
      using c3 by (auto simp: set_bigrams_def split: mx_cell.splits)
    show ?thesis
    proof (cases "m_mx m ! i ! j")
      case NONE
      have "msize m1 = msize m \<and> m_strip_ixs m1 = m_strip_ixs m"
        using "1.IH"(1) [OF _ _ NONE _ c1] ne by simp
      moreover have "msize m2 = msize m1 \<and> m_strip_ixs m2 = m_strip_ixs m1"
        using "1.IH"(2) [OF _ _ NONE _ c1 refl c2] ne by simp
      ultimately show ?thesis using c3' by simp
    next
      case (SIZE n)
      have "msize m1 = msize m \<and> m_strip_ixs m1 = m_strip_ixs m"
        using "1.IH"(3) [OF _ _ SIZE _ c1] ne by simp
      moreover have "msize m2 = msize m1 \<and> m_strip_ixs m2 = m_strip_ixs m1"
        using "1.IH"(4) [OF _ _ SIZE _ c1 refl c2] ne by simp
      ultimately show ?thesis using c3' by simp
    next
      case (BIGRAMS b)
      then show ?thesis using False by simp
    qed
  qed
qed

record iterator =
  m_bigrams :: basic_bigrams
  m_sdc_threshold :: double
  m_card_ratio_threshold :: double
  m_i :: nat
  m_j :: nat
  m_sdc :: double

definition card_ratio_of :: "nat \<Rightarrow> nat \<Rightarrow> double" where
  "card_ratio_of sz qsz = ddiv (double_of_size sz) (double_of_size qsz)"

definition subseq_short :: "double \<Rightarrow> bool" where
  "subseq_short card_ratio = dless card_ratio (Fin 1)"

definition bigger_ratio :: "double \<Rightarrow> double" where
  "bigger_ratio card_ratio = (if subseq_short card_ratio then ddiv (Fin 1) card_ratio else card_ratio)"

function inner_loop :: "iterator \<Rightarrow> sequence_matcher \<Rightarrow> (bool \<times> iterator \<times> sequence_matcher) option" where
  "inner_loop it m =
     (if m_i it < msize m - m_j it then
        if m_j it + m_i it \<in> m_strip_ixs m then inner_loop (it\<lparr>m_i := m_i it + 1\<rparr>) m
        else (case bigrams_size (m_i it) (m_j it) m of
                None \<Rightarrow> None
              | Some (sz, m1) \<Rightarrow>
                  if dgreater (bigger_ratio (card_ratio_of sz (bsize (m_bigrams it))))
                              (m_card_ratio_threshold it)
                  then (if subseq_short (card_ratio_of sz (bsize (m_bigrams it)))
                        then inner_loop (it\<lparr>m_i := m_i it + 1\<rparr>) m1
                        else Some (False, it, m1))
                  else (case bigrams (m_i it) (m_j it) m1 of
                          None \<Rightarrow> None
                        | Some (b, m2) \<Rightarrow>
                            if dless (sorensen_dice_coef b (m_bigrams it)) (m_sdc_threshold it)
                            then inner_loop (it\<lparr>m_sdc := sorensen_dice_coef b (m_bigrams it),
                                                m_i := m_i it + 1\<rparr>) m2
                            else Some (True, it\<lparr>m_sdc := sorensen_dice_coef b (m_bigrams it)\<rparr>, m2)))
      else Some (False, it, m))"
  by pat_completeness auto
termination
proof (relation "measure (\<lambda>(it, m). msize m - m_j it - m_i it)", goal_cases)
  case 1
  show ?case by simp
next
  case (2 it m)
  then show ?case by simp
next
  case (3 it m x2 sz m1)
  then show ?case using bigrams_size_msize [of "m_i it" "m_j it" m sz m1] by simp
next
  case (4 it m x2 sz m1 x2a b m2)
  then show ?case
    using bigrams_size_msize [of "m_i it" "m_j it" m sz m1] bigrams_msize [of "m_i it" "m_j it" m1 b m2]
    by simp
qed

declare inner_loop.simps [simp del]

lemma inner_loop_frame:
  "inner_loop it m = Some (found, it', m') \<Longrightarrow>
   msize m' = msize m \<and> m_strip_ixs m' = m_strip_ixs m \<and> m_j it' = m_j it"
proof (induction it m arbitrary: found it' m' rule: inner_loop.induct)
  case (1 it m)
  show ?case
  proof (cases "m_i it < msize m - m_j it")
    case False
    then show ?thesis using "1.prems" by (subst (asm) inner_loop.simps) auto
  next
    case lt: True
    show ?thesis
    proof (cases "m_j it + m_i it \<in> m_strip_ixs m")
      case True
      then have "inner_loop (it\<lparr>m_i := m_i it + 1\<rparr>) m = Some (found, it', m')"
        using "1.prems" lt by (subst (asm) inner_loop.simps) auto
      from "1.IH"(1) [OF lt True this] show ?thesis by simp
    next
      case ns: False
      then obtain sz m1 where bs: "bigrams_size (m_i it) (m_j it) m = Some (sz, m1)"
        using "1.prems" lt by (subst (asm) inner_loop.simps) (auto split: option.splits)
      note f1 = bigrams_size_msize [OF bs]
      show ?thesis
      proof (cases "dgreater (bigger_ratio (card_ratio_of sz (bsize (m_bigrams it)))) (m_card_ratio_threshold it)")
        case gt: True
        show ?thesis
        proof (cases "subseq_short (card_ratio_of sz (bsize (m_bigrams it)))")
          case True
          then have "inner_loop (it\<lparr>m_i := m_i it + 1\<rparr>) m1 = Some (found, it', m')"
            using "1.prems" lt ns bs gt by (subst (asm) inner_loop.simps) auto
          from "1.IH"(2) [OF lt ns bs refl gt True this] f1 show ?thesis by simp
        next
          case False
          then show ?thesis using "1.prems" lt ns bs gt f1 by (subst (asm) inner_loop.simps) auto
        qed
      next
        case ngt: False
        then obtain b m2 where bg: "bigrams (m_i it) (m_j it) m1 = Some (b, m2)"
          using "1.prems" lt ns bs by (subst (asm) inner_loop.simps) (auto split: option.splits)
        note f2 = bigrams_msize [OF bg]
        show ?thesis
        proof (cases "dless (sorensen_dice_coef b (m_bigrams it)) (m_sdc_threshold it)")
          case True
          then have "inner_loop (it\<lparr>m_sdc := sorensen_dice_coef b (m_bigrams it), m_i := m_i it + 1\<rparr>) m2
              = Some (found, it', m')"
            using "1.prems" lt ns bs ngt bg by (subst (asm) inner_loop.simps) auto
          from "1.IH"(3) [OF lt ns bs refl ngt bg refl True this] f1 f2 show ?thesis by simp
        next
          case False
          then show ?thesis using "1.prems" lt ns bs ngt bg f1 f2
            by (subst (asm) inner_loop.simps) auto
        qed
      qed
    qed
  qed
qed

function next_match :: "iterator \<Rightarrow> sequence_matcher \<Rightarrow> (iterator \<times> sequence_matcher) option" where
  "next_match it m =
     (if m_j it < msize m then
        if m_j it \<in> m_strip_ixs m then next_match (it\<lparr>m_j := m_j it + 1\<rparr>) m
        else (case inner_loop it m of
                None \<Rightarrow> None
              | Some (found, it', m') \<Rightarrow>
                  if found then Some (it', m')
                  else next_match (it'\<lparr>m_i := 0, m_j := m_j it' + 1\<rparr>) m')
      else Some (it, m))"
  by pat_completeness auto
termination
proof (relation "measure (\<lambda>(it, m). msize m - m_j it)", goal_cases)
  case 1
  show ?case by simp
next
  case (2 it m)
  then show ?case by simp
next
  case (3 it m x2 found y it' m')
  then show ?case using inner_loop_frame [of it m found it' m'] by simp
qed

declare next_match.simps [simp del]

definition iterator_ctor ::
  "sequence_matcher \<Rightarrow> basic_bigrams \<Rightarrow> double \<Rightarrow> nat \<Rightarrow> nat \<Rightarrow> (iterator \<times> sequence_matcher) option" where
  "iterator_ctor matcher bgrms threshold i j =
     next_match \<lparr>m_bigrams = bgrms, m_sdc_threshold = threshold,
                 m_card_ratio_threshold = dsub (ddiv (Fin 2) threshold) (Fin 1),
                 m_i = i, m_j = j, m_sdc = Fin 0\<rparr> matcher"

definition iterator_end :: "sequence_matcher \<Rightarrow> (iterator \<times> sequence_matcher) option" where
  "iterator_end matcher = iterator_ctor matcher bigrams_empty (Fin 0) 0 (msize matcher)"

definition matcher_begin ::
  "sequence_matcher \<Rightarrow> basic_bigrams \<Rightarrow> double \<Rightarrow> (iterator \<times> sequence_matcher) option" where
  "matcher_begin matcher bgrms threshold = iterator_ctor matcher bgrms threshold 0 0"

definition matcher_end :: "sequence_matcher \<Rightarrow> (iterator \<times> sequence_matcher) option" where
  "matcher_end matcher = iterator_end matcher"

definition increment :: "iterator \<Rightarrow> sequence_matcher \<Rightarrow> (iterator \<times> sequence_matcher) option" where
  "increment it m = next_match (it\<lparr>m_i := m_i it + 1\<rparr>) m"

definition iterator_eq :: "iterator \<Rightarrow> iterator \<Rightarrow> bool" where
  "iterator_eq this other \<longleftrightarrow> m_i this = m_i other \<and> m_j this = m_j other"

definition dereference :: "iterator \<Rightarrow> sequence_matcher \<Rightarrow> (basic_bigrams \<times> sequence_matcher) option" where
  "dereference it m = bigrams (m_i it) (m_j it) m"

section \<open>What the matrix stands for\<close>

text \<open>
  The profiles of row 0 are the tokens of the matcher. \<open>window ps i j\<close> is the sub-sequence
  of length \<open>i + 1\<close> that starts at \<open>j\<close>; \<open>split_union ps i j\<close> is the profile that the
  recursive split builds for it, \<open>B\<^sub>i\<^sub>j\<close> of the documentation of the class.
\<close>

definition cell_bigrams :: "mx_cell \<Rightarrow> basic_bigrams" where
  "cell_bigrams c = (case c of BIGRAMS b \<Rightarrow> b | _ \<Rightarrow> bigrams_empty)"

definition row0 :: "sequence_matcher \<Rightarrow> basic_bigrams list" where
  "row0 m = (case m_mx m of [] \<Rightarrow> [] | r # _ \<Rightarrow> map cell_bigrams r)"

definition window :: "'a list \<Rightarrow> nat \<Rightarrow> nat \<Rightarrow> 'a list" where
  "window ps i j = take (i + 1) (drop j ps)"

definition window_size :: "basic_bigrams list \<Rightarrow> nat \<Rightarrow> nat \<Rightarrow> nat" where
  "window_size ps i j = sum_list (map bsize (window ps i j))"

function split_union :: "basic_bigrams list \<Rightarrow> nat \<Rightarrow> nat \<Rightarrow> basic_bigrams" where
  "split_union ps i j =
     (if i = 0 then ps ! j
      else bplus (split_union ps (i div 2) j)
                 (split_union ps (i - (i div 2 + 1)) (j + (i div 2 + 1))))"
  by pat_completeness auto
termination
  by (relation "measure (\<lambda>(ps, i, j). i)") auto

declare split_union.simps [simp del]

text \<open>
  The invariant of a matcher of \<open>N\<close> tokens: row \<open>i\<close> has \<open>N - i\<close> cells, row 0 holds the
  profiles of the tokens, a cell of a higher row is empty or holds the size or the profile
  of its window, and the profiles of the tokens satisfy their representation invariant.
\<close>

definition cell_ok :: "basic_bigrams list \<Rightarrow> nat \<Rightarrow> nat \<Rightarrow> mx_cell \<Rightarrow> bool" where
  "cell_ok ps i j c =
     (case c of
        NONE \<Rightarrow> i \<noteq> 0
      | SIZE n \<Rightarrow> i \<noteq> 0 \<and> n = window_size ps i j
      | BIGRAMS b \<Rightarrow> b = split_union ps i j)"

definition matcher_inv :: "sequence_matcher \<Rightarrow> bool" where
  "matcher_inv m \<longleftrightarrow>
     (\<forall>i < msize m. length (m_mx m ! i) = msize m - i \<and>
        (\<forall>j < msize m - i. cell_ok (row0 m) i j (m_mx m ! i ! j))) \<and>
     (\<forall>p \<in> set (row0 m). bigrams_inv p)"

lemma sub_ix_simp: "sub_ix i j = (i div 2, j, i - (i div 2 + 1), j + (i div 2 + 1))"
  by (simp add: sub_ix_def Let_def)

lemma window_0: "j < length ps \<Longrightarrow> window ps 0 j = [ps ! j]"
  by (simp add: window_def take_Suc_conv_app_nth)

lemma window_split:
  assumes "0 < i"
  shows "window ps i j = window ps (i div 2) j @ window ps (i - (i div 2 + 1)) (j + (i div 2 + 1))"
proof -
  have e: "i + 1 = (i div 2 + 1) + (i - (i div 2 + 1) + 1)" using assms by simp
  have "take (i + 1) (drop j ps) =
      take (i div 2 + 1) (drop j ps) @ take (i - (i div 2 + 1) + 1) (drop (i div 2 + 1) (drop j ps))"
    by (subst e) (rule take_add)
  then show ?thesis by (simp add: window_def add.commute)
qed

lemma window_size_split:
  "0 < i \<Longrightarrow> window_size ps i j =
     window_size ps (i div 2) j + window_size ps (i - (i div 2 + 1)) (j + (i div 2 + 1))"
  by (simp add: window_size_def window_split [of i ps j])

lemma length_row0: "matcher_inv m \<Longrightarrow> length (row0 m) = msize m"
proof (cases "m_mx m")
  case Nil
  then show ?thesis by (simp add: row0_def msize_def)
next
  case (Cons r rs)
  assume "matcher_inv m"
  moreover have "0 < msize m" using Cons by (simp add: msize_def)
  ultimately have "length (m_mx m ! 0) = msize m - 0" unfolding matcher_inv_def by blast
  then show ?thesis using Cons by (simp add: row0_def)
qed

lemma split_union_props:
  assumes "\<forall>p \<in> set ps. bigrams_inv p"
  shows "i + j < length ps \<Longrightarrow>
     bigrams_inv (split_union ps i j) \<and>
     bsize (split_union ps i j) = window_size ps i j \<and>
     mset_of (split_union ps i j) = sum_list (map mset_of (window ps i j))"
proof (induction i arbitrary: j rule: less_induct)
  case (less i)
  show ?case
  proof (cases "i = 0")
    case True
    then have "split_union ps i j = ps ! j" by (simp add: split_union.simps)
    moreover have "bigrams_inv (ps ! j)" using assms less.prems by simp
    ultimately show ?thesis using True less.prems by (simp add: window_size_def window_0)
  next
    case False
    let ?i1 = "i div 2" and ?i2 = "i - (i div 2 + 1)" and ?j2 = "j + (i div 2 + 1)"
    have su: "split_union ps i j = plus_assign (split_union ps ?i2 ?j2) (split_union ps ?i1 j)"
      using False by (subst split_union.simps) (simp add: bplus_eq)
    have h1: "bigrams_inv (split_union ps ?i1 j) \<and>
        bsize (split_union ps ?i1 j) = window_size ps ?i1 j \<and>
        mset_of (split_union ps ?i1 j) = sum_list (map mset_of (window ps ?i1 j))"
      using less.IH [of ?i1 j] False less.prems by simp
    have h2: "bigrams_inv (split_union ps ?i2 ?j2) \<and>
        bsize (split_union ps ?i2 ?j2) = window_size ps ?i2 ?j2 \<and>
        mset_of (split_union ps ?i2 ?j2) = sum_list (map mset_of (window ps ?i2 ?j2))"
      using less.IH [of ?i2 ?j2] False less.prems by simp
    have "bigrams_inv (split_union ps i j)" unfolding su using h1 h2 by (simp add: plus_assign_inv)
    moreover have "bsize (split_union ps i j) = window_size ps i j"
      unfolding su using h1 h2 False by (simp add: plus_assign_size window_size_split [of i ps j])
    moreover have "mset_of (split_union ps i j) = sum_list (map mset_of (window ps i j))"
      unfolding su using h1 h2 False by (simp add: plus_assign_mset window_split [of i ps j])
    ultimately show ?thesis by simp
  qed
qed

subsection \<open>Storing into a cell\<close>

lemma row0_set_cell: "i \<noteq> 0 \<Longrightarrow> row0 (set_cell i j c m) = row0 m"
  by (cases "m_mx m"; cases i) (simp_all add: row0_def set_cell_def)

lemma mx_set_cell_other: "i' \<noteq> i \<Longrightarrow> m_mx (set_cell i j c m) ! i' = m_mx m ! i'"
  by (simp add: set_cell_def)

lemma mx_set_cell_same:
  "i < msize m \<Longrightarrow> m_mx (set_cell i j c m) ! i = (m_mx m ! i)[j := c]"
  by (simp add: set_cell_def msize_def)

lemma matcher_inv_set_cell:
  assumes "matcher_inv m" "i \<noteq> 0" "i + j < msize m" "cell_ok (row0 m) i j c"
  shows "matcher_inv (set_cell i j c m)"
  unfolding matcher_inv_def
proof (intro conjI allI impI)
  fix i' assume i': "i' < msize (set_cell i j c m)"
  then have i'm: "i' < msize m" by simp
  have len: "length (m_mx m ! i') = msize m - i'" using assms(1) i'm by (simp add: matcher_inv_def)
  show "length (m_mx (set_cell i j c m) ! i') = msize (set_cell i j c m) - i'"
    using len assms(3) by (cases "i' = i") (simp_all add: mx_set_cell_other mx_set_cell_same)
  fix j' assume j': "j' < msize (set_cell i j c m) - i'"
  have ok: "cell_ok (row0 m) i' j' (m_mx m ! i' ! j')"
    using assms(1) i'm j' by (simp add: matcher_inv_def)
  show "cell_ok (row0 (set_cell i j c m)) i' j' (m_mx (set_cell i j c m) ! i' ! j')"
  proof (cases "i' = i")
    case True
    then show ?thesis using ok assms j' len
      by (cases "j' = j") (simp_all add: row0_set_cell mx_set_cell_same)
  next
    case False
    then show ?thesis using ok assms(2) by (simp add: row0_set_cell mx_set_cell_other)
  qed
next
  show "\<forall>p\<in>set (row0 (set_cell i j c m)). bigrams_inv p"
    using assms(1,2) by (simp add: row0_set_cell matcher_inv_def)
qed

definition same_tokens :: "sequence_matcher \<Rightarrow> sequence_matcher \<Rightarrow> bool" where
  "same_tokens m m' \<longleftrightarrow>
     row0 m' = row0 m \<and> msize m' = msize m \<and> m_strip_ixs m' = m_strip_ixs m"

lemma same_tokens_refl [simp]: "same_tokens m m"
  by (simp add: same_tokens_def)

lemma same_tokens_trans: "same_tokens m m1 \<Longrightarrow> same_tokens m1 m2 \<Longrightarrow> same_tokens m m2"
  by (simp add: same_tokens_def)

lemma same_tokens_set_cell: "i \<noteq> 0 \<Longrightarrow> same_tokens m (set_cell i j c m)"
  by (simp add: same_tokens_def row0_set_cell)

subsection \<open>The lazy computation of sizes and profiles\<close>

lemma inv_cell:
  "matcher_inv m \<Longrightarrow> i + j < msize m \<Longrightarrow>
   i < msize m \<and> j < length (m_mx m ! i) \<and> cell_ok (row0 m) i j (m_mx m ! i ! j)"
  unfolding matcher_inv_def by (metis add_lessD1 less_diff_conv2 linorder_not_le nat_le_linear not_add_less1 add.commute less_diff_conv)

lemma bigrams_size_correct:
  "matcher_inv m \<Longrightarrow> i + j < msize m \<Longrightarrow>
   \<exists>m'. bigrams_size i j m = Some (window_size (row0 m) i j, m') \<and>
        matcher_inv m' \<and> same_tokens m m' \<and> (\<forall>i' > i. m_mx m' ! i' = m_mx m ! i')"
proof (induction i arbitrary: j m rule: less_induct)
  case (less i)
  note inv = less.prems(1) and tri = less.prems(2)
  from inv_cell [OF inv tri] have
    ri: "i < msize m" and rj: "j < length (m_mx m ! i)" and
    ok: "cell_ok (row0 m) i j (m_mx m ! i ! j)" by simp_all
  have ps: "\<forall>p \<in> set (row0 m). bigrams_inv p" using inv by (simp add: matcher_inv_def)
  have lr: "length (row0 m) = msize m" using inv by (rule length_row0)
  show ?case
  proof (cases "m_mx m ! i ! j")
    case (SIZE n)
    then have "bigrams_size i j m = Some (window_size (row0 m) i j, m)"
      using ri rj ok by (subst bigrams_size.simps) (simp add: cell_ok_def)
    then show ?thesis using inv by auto
  next
    case (BIGRAMS b)
    then have "b = split_union (row0 m) i j" using ok by (simp add: cell_ok_def)
    then have "bsize b = window_size (row0 m) i j"
      using split_union_props [OF ps, of i j] tri lr by simp
    then have "bigrams_size i j m = Some (window_size (row0 m) i j, m)"
      using ri rj BIGRAMS by (subst bigrams_size.simps) simp
    then show ?thesis using inv by auto
  next
    case NONE
    then have i0: "i \<noteq> 0" using ok by (simp add: cell_ok_def)
    let ?i1 = "i div 2" and ?i2 = "i - (i div 2 + 1)" and ?j2 = "j + (i div 2 + 1)"
    have lt1: "?i1 < i" and lt2: "?i2 < i" using i0 by simp_all
    have t1: "?i1 + j < msize m" using tri by simp
    from less.IH [OF lt1 inv t1] obtain m1 where
      c1: "bigrams_size ?i1 j m = Some (window_size (row0 m) ?i1 j, m1)" and
      inv1: "matcher_inv m1" and st1: "same_tokens m m1" and
      fr1: "\<forall>i' > ?i1. m_mx m1 ! i' = m_mx m ! i'" by blast
    have t2: "?i2 + ?j2 < msize m1" using tri i0 st1 by (simp add: same_tokens_def)
    from less.IH [OF lt2 inv1 t2] obtain m2 where
      c2: "bigrams_size ?i2 ?j2 m1 = Some (window_size (row0 m1) ?i2 ?j2, m2)" and
      inv2: "matcher_inv m2" and st2: "same_tokens m1 m2" and
      fr2: "\<forall>i' > ?i2. m_mx m2 ! i' = m_mx m1 ! i'" by blast
    have st: "same_tokens m m2" using st1 st2 by (rule same_tokens_trans)
    have r0: "row0 m1 = row0 m" "row0 m2 = row0 m" "msize m2 = msize m"
      using st1 st by (simp_all add: same_tokens_def)
    have rowi: "m_mx m2 ! i = m_mx m ! i" using fr1 fr2 lt1 lt2 by simp
    let ?r = "window_size (row0 m) ?i1 j + window_size (row0 m) ?i2 ?j2"
    have r: "?r = window_size (row0 m) i j" using i0 by (simp add: window_size_split [of i])
    let ?m3 = "set_cell i j (SIZE ?r) m2"
    have ss: "set_size i j ?r m2 = Some ?m3" using rowi NONE by (simp add: set_size_def)
    have res: "bigrams_size i j m = Some (?r, ?m3)"
      using ri rj NONE i0 c1 c2 ss r0 by (subst bigrams_size.simps) (simp add: sub_ix_simp)
    have inv3: "matcher_inv ?m3"
      using inv2 i0 tri r0 r by (intro matcher_inv_set_cell) (simp_all add: cell_ok_def)
    have st3: "same_tokens m ?m3"
      using st same_tokens_set_cell [OF i0, of m2 j "SIZE ?r"] by (rule same_tokens_trans)
    have fr3: "\<forall>i' > i. m_mx ?m3 ! i' = m_mx m ! i'"
      using fr1 fr2 lt1 lt2 by (simp add: mx_set_cell_other)
    show ?thesis using res inv3 st3 fr3 r by auto
  qed
qed

lemma bigrams_correct:
  "matcher_inv m \<Longrightarrow> i + j < msize m \<Longrightarrow>
   \<exists>m'. bigrams i j m = Some (split_union (row0 m) i j, m') \<and>
        matcher_inv m' \<and> same_tokens m m' \<and> (\<forall>i' > i. m_mx m' ! i' = m_mx m ! i')"
proof (induction i arbitrary: j m rule: less_induct)
  case (less i)
  note inv = less.prems(1) and tri = less.prems(2)
  from inv_cell [OF inv tri] have
    ri: "i < msize m" and rj: "j < length (m_mx m ! i)" and
    ok: "cell_ok (row0 m) i j (m_mx m ! i ! j)" by simp_all
  show ?case
  proof (cases "\<exists>b. m_mx m ! i ! j = BIGRAMS b")
    case True
    then obtain b where b: "m_mx m ! i ! j = BIGRAMS b" by blast
    then have "b = split_union (row0 m) i j" using ok by (simp add: cell_ok_def)
    then have "bigrams i j m = Some (split_union (row0 m) i j, m)"
      using ri rj b by (subst bigrams.simps) simp
    then show ?thesis using inv by auto
  next
    case False
    then have i0: "i \<noteq> 0" using ok by (cases "m_mx m ! i ! j") (simp_all add: cell_ok_def)
    let ?i1 = "i div 2" and ?i2 = "i - (i div 2 + 1)" and ?j2 = "j + (i div 2 + 1)"
    have lt1: "?i1 < i" and lt2: "?i2 < i" using i0 by simp_all
    have t1: "?i1 + j < msize m" using tri by simp
    from less.IH [OF lt1 inv t1] obtain m1 where
      c1: "bigrams ?i1 j m = Some (split_union (row0 m) ?i1 j, m1)" and
      inv1: "matcher_inv m1" and st1: "same_tokens m m1" and
      fr1: "\<forall>i' > ?i1. m_mx m1 ! i' = m_mx m ! i'" by blast
    have t2: "?i2 + ?j2 < msize m1" using tri i0 st1 by (simp add: same_tokens_def)
    from less.IH [OF lt2 inv1 t2] obtain m2 where
      c2: "bigrams ?i2 ?j2 m1 = Some (split_union (row0 m1) ?i2 ?j2, m2)" and
      inv2: "matcher_inv m2" and st2: "same_tokens m1 m2" and
      fr2: "\<forall>i' > ?i2. m_mx m2 ! i' = m_mx m1 ! i'" by blast
    have st: "same_tokens m m2" using st1 st2 by (rule same_tokens_trans)
    have r0: "row0 m1 = row0 m" "row0 m2 = row0 m" "msize m2 = msize m"
      using st1 st by (simp_all add: same_tokens_def)
    have rowi: "m_mx m2 ! i = m_mx m ! i" using fr1 fr2 lt1 lt2 by simp
    let ?b = "bplus (split_union (row0 m) ?i1 j) (split_union (row0 m) ?i2 ?j2)"
    have b: "?b = split_union (row0 m) i j" using i0 by (subst (3) split_union.simps) simp
    let ?m3 = "set_cell i j (BIGRAMS ?b) m2"
    have ss: "set_bigrams i j ?b m2 = Some ?m3"
      using rowi False by (cases "m_mx m ! i ! j") (simp_all add: set_bigrams_def)
    have res: "bigrams i j m = Some (?b, ?m3)"
      using ri rj False i0 c1 c2 ss r0
      by (subst bigrams.simps, cases "m_mx m ! i ! j") (simp_all add: sub_ix_simp)
    have inv3: "matcher_inv ?m3"
      using inv2 i0 tri r0 b by (intro matcher_inv_set_cell) (simp_all add: cell_ok_def)
    have st3: "same_tokens m ?m3"
      using st same_tokens_set_cell [OF i0, of m2 j "BIGRAMS ?b"] by (rule same_tokens_trans)
    have fr3: "\<forall>i' > i. m_mx ?m3 ! i' = m_mx m ! i'"
      using fr1 fr2 lt1 lt2 by (simp add: mx_set_cell_other)
    show ?thesis using res inv3 st3 fr3 b by auto
  qed
qed

subsection \<open>Appending a token\<close>

lemma fold_emplace_back_cell:
  "b \<le> length mx \<Longrightarrow>
   length (fold (\<lambda>i. emplace_back_cell i c) [a..<b] mx) = length mx \<and>
   (\<forall>k < length mx. fold (\<lambda>i. emplace_back_cell i c) [a..<b] mx ! k =
      (if a \<le> k \<and> k < b then mx ! k @ [c] else mx ! k))"
proof (induction b)
  case 0
  then show ?case by simp
next
  case (Suc b)
  show ?case
  proof (cases "a \<le> b")
    case True
    then have "[a..<Suc b] = [a..<b] @ [b]" by simp
    then show ?thesis using Suc True by (auto simp: emplace_back_cell_def nth_list_update)
  next
    case False
    then show ?thesis by simp
  qed
qed

lemma window_append: "i + j < length ps \<Longrightarrow> window (ps @ qs) i j = window ps i j"
  by (simp add: window_def)

lemma split_union_append:
  "i + j < length ps \<Longrightarrow> split_union (ps @ qs) i j = split_union ps i j"
proof (induction i arbitrary: j rule: less_induct)
  case (less i)
  show ?case
  proof (cases "i = 0")
    case True
    then show ?thesis using less.prems by (simp add: split_union.simps nth_append)
  next
    case False
    have "split_union (ps @ qs) (i div 2) j = split_union ps (i div 2) j"
      using less.IH [of "i div 2" j] False less.prems by simp
    moreover have "split_union (ps @ qs) (i - (i div 2 + 1)) (j + (i div 2 + 1)) =
        split_union ps (i - (i div 2 + 1)) (j + (i div 2 + 1))"
      using less.IH [of "i - (i div 2 + 1)" "j + (i div 2 + 1)"] False less.prems by simp
    ultimately show ?thesis using False
      by (subst split_union.simps, subst (3) split_union.simps) simp
  qed
qed

lemma cell_ok_append:
  "i + j < length ps \<Longrightarrow> cell_ok ps i j c \<Longrightarrow> cell_ok (ps @ qs) i j c"
  by (cases c) (simp_all add: cell_ok_def window_size_def window_append split_union_append)

lemma push_back_mx:
  "msize (push_back bgrms strip m) = msize m + 1 \<and>
   (\<forall>k \<le> msize m. m_mx (push_back bgrms strip m) ! k =
      (if k < msize m then m_mx m ! k else []) @ [if k = 0 then BIGRAMS bgrms else NONE])"
proof -
  define mx0 where "mx0 = m_mx m @ [[]]"
  define mx where "mx = emplace_back_cell 0 (BIGRAMS bgrms) mx0"
  have mxp: "m_mx (push_back bgrms strip m) = fold (\<lambda>i. emplace_back_cell i NONE) [1..<length mx] mx"
    by (simp add: push_back_def Let_def add_row_def mx_def mx0_def)
  have len0: "length mx0 = msize m + 1" by (simp add: mx0_def msize_def)
  have len: "length mx = msize m + 1" by (simp add: mx_def emplace_back_cell_def len0)
  have n0: "mx0 ! k = (if k < msize m then m_mx m ! k else [])" if "k \<le> msize m" for k
  proof (cases "k < msize m")
    case True
    then show ?thesis by (simp add: mx0_def msize_def nth_append)
  next
    case False
    then have "k = length (m_mx m)" using that by (simp add: msize_def)
    then show ?thesis by (simp add: mx0_def msize_def)
  qed
  have n1: "mx ! k = (if k = 0 then mx0 ! 0 @ [BIGRAMS bgrms] else mx0 ! k)" if "k \<le> msize m" for k
    using that len0 by (simp add: mx_def emplace_back_cell_def nth_list_update)
  have f: "length (fold (\<lambda>i. emplace_back_cell i NONE) [1..<length mx] mx) = length mx \<and>
      (\<forall>k < length mx. fold (\<lambda>i. emplace_back_cell i NONE) [1..<length mx] mx ! k =
        (if 1 \<le> k \<and> k < length mx then mx ! k @ [NONE] else mx ! k))"
    by (rule fold_emplace_back_cell) simp
  have sz: "msize (push_back bgrms strip m) = msize m + 1"
    using f len by (simp add: msize_def mxp)
  have row: "m_mx (push_back bgrms strip m) ! k =
        (if k < msize m then m_mx m ! k else []) @ [if k = 0 then BIGRAMS bgrms else NONE]"
    if k: "k \<le> msize m" for k
  proof (cases "k = 0")
    case True
    have "m_mx (push_back bgrms strip m) ! 0 = mx ! 0"
      using f len by (simp add: mxp)
    then show ?thesis using True n1 [of 0] n0 [of 0] by simp
  next
    case False
    then have "m_mx (push_back bgrms strip m) ! k = mx ! k @ [NONE]"
      using f len k by (simp add: mxp)
    then show ?thesis using False n1 [OF k] n0 [OF k] by simp
  qed
  show ?thesis using sz row by blast
qed


lemma push_back_row0:
  assumes "matcher_inv m"
  shows "row0 (push_back bgrms strip m) = row0 m @ [bgrms]"
proof -
  from push_back_mx [of bgrms strip m] have
    sz: "msize (push_back bgrms strip m) = msize m + 1" and
    r0: "m_mx (push_back bgrms strip m) ! 0 = (if 0 < msize m then m_mx m ! 0 else []) @ [BIGRAMS bgrms]"
    by simp_all
  then obtain r rs where c: "m_mx (push_back bgrms strip m) = r # rs"
    by (cases "m_mx (push_back bgrms strip m)") (simp_all add: msize_def)
  then have r: "r = (if 0 < msize m then m_mx m ! 0 else []) @ [BIGRAMS bgrms]" using r0 by simp
  show ?thesis
  proof (cases "m_mx m")
    case Nil
    then show ?thesis using c r by (simp add: row0_def msize_def cell_bigrams_def)
  next
    case (Cons a list)
    then show ?thesis using c r by (simp add: row0_def msize_def cell_bigrams_def)
  qed
qed

lemma matcher_inv_new: "matcher_inv matcher_new"
  by (simp add: matcher_inv_def matcher_new_def msize_def row0_def)

lemma matcher_inv_push_back:
  assumes "matcher_inv m" "bigrams_inv bgrms"
  shows "matcher_inv (push_back bgrms strip m)"
  unfolding matcher_inv_def
proof (intro conjI allI impI)
  let ?m' = "push_back bgrms strip m"
  from push_back_mx [of bgrms strip m] have
    sz: "msize ?m' = msize m + 1" and
    row: "\<And>k. k \<le> msize m \<Longrightarrow> m_mx ?m' ! k =
      (if k < msize m then m_mx m ! k else []) @ [if k = 0 then BIGRAMS bgrms else NONE]"
    by simp_all
  have r0: "row0 ?m' = row0 m @ [bgrms]" using assms(1) by (rule push_back_row0)
  have lr: "length (row0 m) = msize m" using assms(1) by (rule length_row0)
  show "\<forall>p\<in>set (row0 ?m'). bigrams_inv p"
    using assms by (simp add: r0 matcher_inv_def)
  fix i assume "i < msize ?m'"
  then have i: "i \<le> msize m" using sz by simp
  have len: "i < msize m \<Longrightarrow> length (m_mx m ! i) = msize m - i"
    using assms(1) by (simp add: matcher_inv_def)
  show "length (m_mx ?m' ! i) = msize ?m' - i"
    using row [OF i] sz i len by (cases "i < msize m") simp_all
  fix j assume "j < msize ?m' - i"
  then have j: "j \<le> msize m - i" using sz by simp
  show "cell_ok (row0 ?m') i j (m_mx ?m' ! i ! j)"
  proof (cases "j < msize m - i")
    case True
    then have il: "i < msize m" by simp
    have "cell_ok (row0 m) i j (m_mx m ! i ! j)"
      using assms(1) il True by (simp add: matcher_inv_def)
    then have "cell_ok (row0 m @ [bgrms]) i j (m_mx m ! i ! j)"
      using True lr by (intro cell_ok_append) simp_all
    then show ?thesis using row [OF i] il True len by (simp add: r0 nth_append)
  next
    case False
    then have je: "j = msize m - i" using j by simp
    show ?thesis
    proof (cases "i = 0")
      case True
      then have "m_mx ?m' ! i ! j = BIGRAMS bgrms"
        using row [OF i] je len by (cases "0 < msize m") (simp_all add: nth_append)
      moreover have "split_union (row0 ?m') 0 j = bgrms"
        using je True lr by (simp add: split_union.simps r0 nth_append)
      ultimately show ?thesis using True by (simp add: cell_ok_def)
    next
      case False
      then have "m_mx ?m' ! i ! j = NONE"
        using row [OF i] je len i by (cases "i < msize m") (simp_all add: nth_append)
      then show ?thesis using False by (simp add: cell_ok_def)
    qed
  qed
qed

lemma matcher_inv_emplace_back:
  "matcher_inv m \<Longrightarrow> matcher_inv (emplace_back str strip m)"
  by (simp add: emplace_back_def matcher_inv_push_back bigrams_inv_of_string)

section \<open>The scan of the iterator, without the cache\<close>

text \<open>
  The two loops of \<^const>\<open>next_match\<close>, over the tokens and the strip set alone: a cell's size
  and profile are those of its window. \<^const>\<open>next_match\<close> on a matcher that satisfies the
  invariant computes the same iterator, whatever its cache holds.
\<close>

function scan_row :: "basic_bigrams list \<Rightarrow> nat set \<Rightarrow> iterator \<Rightarrow> bool \<times> iterator" where
  "scan_row ps strip it =
     (if m_i it < length ps - m_j it then
        if m_j it + m_i it \<in> strip then scan_row ps strip (it\<lparr>m_i := m_i it + 1\<rparr>)
        else if dgreater (bigger_ratio (card_ratio_of (window_size ps (m_i it) (m_j it))
                                                       (bsize (m_bigrams it))))
                         (m_card_ratio_threshold it)
        then (if subseq_short (card_ratio_of (window_size ps (m_i it) (m_j it))
                                             (bsize (m_bigrams it)))
              then scan_row ps strip (it\<lparr>m_i := m_i it + 1\<rparr>)
              else (False, it))
        else if dless (sorensen_dice_coef (split_union ps (m_i it) (m_j it)) (m_bigrams it))
                      (m_sdc_threshold it)
        then scan_row ps strip
               (it\<lparr>m_sdc := sorensen_dice_coef (split_union ps (m_i it) (m_j it)) (m_bigrams it),
                   m_i := m_i it + 1\<rparr>)
        else (True, it\<lparr>m_sdc := sorensen_dice_coef (split_union ps (m_i it) (m_j it))
                                   (m_bigrams it)\<rparr>)
      else (False, it))"
  by pat_completeness auto
termination
  by (relation "measure (\<lambda>(ps, strip, it). length ps - m_j it - m_i it)") auto

declare scan_row.simps [simp del]

lemma scan_row_j: "scan_row ps strip it = (found, it') \<Longrightarrow> m_j it' = m_j it"
proof (induction ps strip it arbitrary: found it' rule: scan_row.induct)
  case (1 ps strip it)
  from "1.prems" show ?case
    by (subst (asm) scan_row.simps) (auto split: if_splits dest: "1.IH")
qed

function scan :: "basic_bigrams list \<Rightarrow> nat set \<Rightarrow> iterator \<Rightarrow> iterator" where
  "scan ps strip it =
     (if m_j it < length ps then
        if m_j it \<in> strip then scan ps strip (it\<lparr>m_j := m_j it + 1\<rparr>)
        else (case scan_row ps strip it of
                (found, it') \<Rightarrow>
                  if found then it'
                  else scan ps strip (it'\<lparr>m_i := 0, m_j := m_j it' + 1\<rparr>))
      else it)"
  by pat_completeness auto
termination
proof (relation "measure (\<lambda>(ps, strip, it). length ps - m_j it)", goal_cases)
  case 1
  show ?case by simp
next
  case (2 ps strip it)
  then show ?case by simp
next
  case (3 ps strip it found it')
  then show ?case using scan_row_j [of ps strip it found it'] by simp
qed

declare scan.simps [simp del]

lemma inner_loop_scan_row:
  "matcher_inv m \<Longrightarrow>
   \<exists>m'. inner_loop it m =
          Some (fst (scan_row (row0 m) (m_strip_ixs m) it),
                snd (scan_row (row0 m) (m_strip_ixs m) it), m') \<and>
        matcher_inv m' \<and> same_tokens m m'"
proof (induction "msize m - m_j it - m_i it" arbitrary: it m rule: less_induct)
  case less
  note inv = less.prems
  have lr: "length (row0 m) = msize m" using inv by (rule length_row0)
  let ?ps = "row0 m" and ?S = "m_strip_ixs m"
  show ?case
  proof (cases "m_i it < msize m - m_j it")
    case False
    then have "inner_loop it m = Some (False, it, m)" by (subst inner_loop.simps) simp
    moreover have "scan_row ?ps ?S it = (False, it)" using False lr by (subst scan_row.simps) simp
    ultimately show ?thesis using inv by simp
  next
    case lt: True
    let ?it1 = "it\<lparr>m_i := m_i it + 1\<rparr>"
    have dec: "msize m - m_j ?it1 - m_i ?it1 < msize m - m_j it - m_i it" using lt by simp
    show ?thesis
    proof (cases "m_j it + m_i it \<in> ?S")
      case True
      have "inner_loop it m = inner_loop ?it1 m" using lt True by (subst inner_loop.simps) simp
      moreover have "scan_row ?ps ?S it = scan_row ?ps ?S ?it1"
        using lt True lr by (subst scan_row.simps) simp
      ultimately show ?thesis using less.hyps [OF dec inv] by simp
    next
      case ns: False
      have tri: "m_i it + m_j it < msize m" using lt by simp
      from bigrams_size_correct [OF inv tri] obtain m1 where
        bs: "bigrams_size (m_i it) (m_j it) m = Some (window_size ?ps (m_i it) (m_j it), m1)" and
        inv1: "matcher_inv m1" and st1: "same_tokens m m1" by blast
      have e1: "row0 m1 = ?ps" "m_strip_ixs m1 = ?S" "msize m1 = msize m"
        using st1 by (simp_all add: same_tokens_def)
      let ?r = "card_ratio_of (window_size ?ps (m_i it) (m_j it)) (bsize (m_bigrams it))"
      show ?thesis
      proof (cases "dgreater (bigger_ratio ?r) (m_card_ratio_threshold it)")
        case gt: True
        show ?thesis
        proof (cases "subseq_short ?r")
          case True
          have "inner_loop it m = inner_loop ?it1 m1"
            using lt ns bs gt True by (subst inner_loop.simps) simp
          moreover have "scan_row ?ps ?S it = scan_row ?ps ?S ?it1"
            using lt ns gt True lr by (subst scan_row.simps) simp
          moreover have "msize m1 - m_j ?it1 - m_i ?it1 < msize m - m_j it - m_i it"
            using lt e1 by simp
          ultimately show ?thesis
            using less.hyps [OF _ inv1, of ?it1] e1 st1 by (auto intro: same_tokens_trans)
        next
          case False
          have "inner_loop it m = Some (False, it, m1)"
            using lt ns bs gt False by (subst inner_loop.simps) simp
          moreover have "scan_row ?ps ?S it = (False, it)"
            using lt ns gt False lr by (subst scan_row.simps) simp
          ultimately show ?thesis using inv1 st1 by simp
        qed
      next
        case ngt: False
        have tri1: "m_i it + m_j it < msize m1" using tri e1 by simp
        from bigrams_correct [OF inv1 tri1] obtain m2 where
          bg: "bigrams (m_i it) (m_j it) m1 = Some (split_union ?ps (m_i it) (m_j it), m2)" and
          inv2: "matcher_inv m2" and st2: "same_tokens m1 m2" using e1 by auto
        have st: "same_tokens m m2" using st1 st2 by (rule same_tokens_trans)
        have e2: "row0 m2 = ?ps" "m_strip_ixs m2 = ?S" "msize m2 = msize m"
          using st by (simp_all add: same_tokens_def)
        let ?s = "sorensen_dice_coef (split_union ?ps (m_i it) (m_j it)) (m_bigrams it)"
        show ?thesis
        proof (cases "dless ?s (m_sdc_threshold it)")
          case True
          let ?it2 = "it\<lparr>m_sdc := ?s, m_i := m_i it + 1\<rparr>"
          have "inner_loop it m = inner_loop ?it2 m2"
            using lt ns bs ngt bg True by (subst inner_loop.simps) simp
          moreover have "scan_row ?ps ?S it = scan_row ?ps ?S ?it2"
            using lt ns ngt True lr by (subst scan_row.simps) simp
          moreover have "msize m2 - m_j ?it2 - m_i ?it2 < msize m - m_j it - m_i it"
            using lt e2 by simp
          ultimately show ?thesis
            using less.hyps [OF _ inv2, of ?it2] e2 st by (auto intro: same_tokens_trans)
        next
          case False
          have "inner_loop it m = Some (True, it\<lparr>m_sdc := ?s\<rparr>, m2)"
            using lt ns bs ngt bg False by (subst inner_loop.simps) simp
          moreover have "scan_row ?ps ?S it = (True, it\<lparr>m_sdc := ?s\<rparr>)"
            using lt ns ngt False lr by (subst scan_row.simps) simp
          ultimately show ?thesis using inv2 st by simp
        qed
      qed
    qed
  qed
qed

lemma next_match_scan:
  "matcher_inv m \<Longrightarrow>
   \<exists>m'. next_match it m = Some (scan (row0 m) (m_strip_ixs m) it, m') \<and>
        matcher_inv m' \<and> same_tokens m m'"
proof (induction "msize m - m_j it" arbitrary: it m rule: less_induct)
  case less
  note inv = less.prems
  have lr: "length (row0 m) = msize m" using inv by (rule length_row0)
  let ?ps = "row0 m" and ?S = "m_strip_ixs m"
  show ?case
  proof (cases "m_j it < msize m")
    case False
    then have "next_match it m = Some (it, m)" by (subst next_match.simps) simp
    moreover have "scan ?ps ?S it = it" using False lr by (subst scan.simps) simp
    ultimately show ?thesis using inv by simp
  next
    case lt: True
    show ?thesis
    proof (cases "m_j it \<in> ?S")
      case True
      let ?it1 = "it\<lparr>m_j := m_j it + 1\<rparr>"
      have "next_match it m = next_match ?it1 m" using lt True by (subst next_match.simps) simp
      moreover have "scan ?ps ?S it = scan ?ps ?S ?it1" using lt True lr by (subst scan.simps) simp
      moreover have "msize m - m_j ?it1 < msize m - m_j it" using lt by simp
      ultimately show ?thesis using less.hyps [OF _ inv, of ?it1] by simp
    next
      case ns: False
      obtain found it' where sr: "scan_row ?ps ?S it = (found, it')"
        by (cases "scan_row ?ps ?S it")
      from inner_loop_scan_row [OF inv, of it] sr obtain m1 where
        il: "inner_loop it m = Some (found, it', m1)" and
        inv1: "matcher_inv m1" and st1: "same_tokens m m1" by auto
      have e1: "row0 m1 = ?ps" "m_strip_ixs m1 = ?S" "msize m1 = msize m"
        using st1 by (simp_all add: same_tokens_def)
      have j': "m_j it' = m_j it" using sr by (rule scan_row_j)
      show ?thesis
      proof (cases found)
        case True
        have "next_match it m = Some (it', m1)"
          using lt ns il True by (subst next_match.simps) simp
        moreover have "scan ?ps ?S it = it'" using lt ns sr True lr by (subst scan.simps) simp
        ultimately show ?thesis using inv1 st1 by simp
      next
        case False
        let ?it2 = "it'\<lparr>m_i := 0, m_j := m_j it' + 1\<rparr>"
        have "next_match it m = next_match ?it2 m1"
          using lt ns il False by (subst next_match.simps) simp
        moreover have "scan ?ps ?S it = scan ?ps ?S ?it2"
          using lt ns sr False lr by (subst scan.simps) simp
        moreover have "msize m1 - m_j ?it2 < msize m - m_j it" using lt e1 j' by simp
        ultimately show ?thesis
          using less.hyps [OF _ inv1, of ?it2] e1 st1 by (auto intro: same_tokens_trans)
      qed
    qed
  qed
qed

subsection \<open>What a scan returns\<close>

text \<open>
  The tests of the inner loop at a cell, for a query \<open>q\<close>, a threshold \<open>thr\<close> and a ratio
  bound \<open>rthr\<close>: the cell is \<open>pruned\<close> by the cardinality ratio; the window is the shorter
  side; the coefficient of the window. A cell is a \<open>hit\<close> when the loop returns at it and a
  \<open>stop\<close> when the loop breaks at it.
\<close>

definition pruned :: "basic_bigrams list \<Rightarrow> basic_bigrams \<Rightarrow> double \<Rightarrow> nat \<Rightarrow> nat \<Rightarrow> bool" where
  "pruned ps q rthr i j =
     dgreater (bigger_ratio (card_ratio_of (window_size ps i j) (bsize q))) rthr"

definition short_side :: "basic_bigrams list \<Rightarrow> basic_bigrams \<Rightarrow> nat \<Rightarrow> nat \<Rightarrow> bool" where
  "short_side ps q i j = subseq_short (card_ratio_of (window_size ps i j) (bsize q))"

definition sdc_at :: "basic_bigrams list \<Rightarrow> basic_bigrams \<Rightarrow> nat \<Rightarrow> nat \<Rightarrow> double" where
  "sdc_at ps q i j = sorensen_dice_coef (split_union ps i j) q"

definition hit ::
  "basic_bigrams list \<Rightarrow> nat set \<Rightarrow> basic_bigrams \<Rightarrow> double \<Rightarrow> double \<Rightarrow> nat \<Rightarrow> nat \<Rightarrow> bool" where
  "hit ps strip q thr rthr i j \<longleftrightarrow>
     j + i \<notin> strip \<and> \<not> pruned ps q rthr i j \<and> \<not> dless (sdc_at ps q i j) thr"

definition stop ::
  "basic_bigrams list \<Rightarrow> nat set \<Rightarrow> basic_bigrams \<Rightarrow> double \<Rightarrow> nat \<Rightarrow> nat \<Rightarrow> bool" where
  "stop ps strip q rthr i j \<longleftrightarrow>
     j + i \<notin> strip \<and> pruned ps q rthr i j \<and> \<not> short_side ps q i j"

definition same_query :: "iterator \<Rightarrow> iterator \<Rightarrow> bool" where
  "same_query it it' \<longleftrightarrow>
     m_bigrams it' = m_bigrams it \<and> m_sdc_threshold it' = m_sdc_threshold it \<and>
     m_card_ratio_threshold it' = m_card_ratio_threshold it"

lemma same_query_simps [simp]:
  "same_query it it"
  "same_query it (it'\<lparr>m_i := i\<rparr>) = same_query it it'"
  "same_query it (it'\<lparr>m_j := j\<rparr>) = same_query it it'"
  "same_query it (it'\<lparr>m_sdc := s\<rparr>) = same_query it it'"
  "same_query (it\<lparr>m_i := i\<rparr>) it' = same_query it it'"
  "same_query (it\<lparr>m_j := j\<rparr>) it' = same_query it it'"
  "same_query (it\<lparr>m_sdc := s\<rparr>) it' = same_query it it'"
  by (simp_all add: same_query_def)

definition row_spec ::
  "basic_bigrams list \<Rightarrow> nat set \<Rightarrow> iterator \<Rightarrow> bool \<Rightarrow> iterator \<Rightarrow> bool" where
  "row_spec ps strip it found it' \<longleftrightarrow>
     same_query it it' \<and> m_j it' = m_j it \<and> m_i it \<le> m_i it' \<and>
     (\<forall>k. m_i it \<le> k \<and> k < m_i it' \<longrightarrow>
        \<not> hit ps strip (m_bigrams it) (m_sdc_threshold it) (m_card_ratio_threshold it) k (m_j it) \<and>
        \<not> stop ps strip (m_bigrams it) (m_card_ratio_threshold it) k (m_j it)) \<and>
     (found \<longrightarrow> m_i it' < length ps - m_j it \<and>
        hit ps strip (m_bigrams it) (m_sdc_threshold it) (m_card_ratio_threshold it) (m_i it') (m_j it) \<and>
        m_sdc it' = sdc_at ps (m_bigrams it) (m_i it') (m_j it)) \<and>
     (\<not> found \<longrightarrow> length ps - m_j it \<le> m_i it' \<or>
        stop ps strip (m_bigrams it) (m_card_ratio_threshold it) (m_i it') (m_j it))"

lemma row_spec_step:
  assumes "row_spec ps strip it1 found it'"
    and "same_query it it1" "m_j it1 = m_j it" "m_i it1 = m_i it + 1"
    and "\<not> hit ps strip (m_bigrams it) (m_sdc_threshold it) (m_card_ratio_threshold it) (m_i it) (m_j it)"
    and "\<not> stop ps strip (m_bigrams it) (m_card_ratio_threshold it) (m_i it) (m_j it)"
  shows "row_spec ps strip it found it'"
proof -
  have q: "m_bigrams it1 = m_bigrams it" "m_sdc_threshold it1 = m_sdc_threshold it"
    "m_card_ratio_threshold it1 = m_card_ratio_threshold it"
    using assms(2) by (simp_all add: same_query_def)
  have k: "\<not> hit ps strip (m_bigrams it) (m_sdc_threshold it) (m_card_ratio_threshold it) k (m_j it) \<and>
        \<not> stop ps strip (m_bigrams it) (m_card_ratio_threshold it) k (m_j it)"
    if "m_i it \<le> k" "k < m_i it'" for k
  proof (cases "k = m_i it")
    case True
    then show ?thesis using assms(5,6) by simp
  next
    case False
    then have "m_i it1 \<le> k" using that(1) assms(4) by simp
    then show ?thesis using assms(1) that(2) q assms(3) unfolding row_spec_def by simp
  qed
  show ?thesis
    unfolding row_spec_def
    using assms(1) k q assms(3,4) unfolding row_spec_def same_query_def by auto
qed

lemma scan_row_spec: "scan_row ps strip it = (found, it') \<Longrightarrow> row_spec ps strip it found it'"
proof (induction ps strip it arbitrary: found it' rule: scan_row.induct)
  case (1 ps strip it)
  let ?q = "m_bigrams it" and ?thr = "m_sdc_threshold it" and ?rthr = "m_card_ratio_threshold it"
  let ?i = "m_i it" and ?j = "m_j it"
  show ?case
  proof (cases "?i < length ps - ?j")
    case False
    then have "scan_row ps strip it = (False, it)" by (subst scan_row.simps) simp
    then have "found = False" "it' = it" using "1.prems" by simp_all
    then show ?thesis using False by (auto simp: row_spec_def)
  next
    case lt: True
    let ?it1 = "it\<lparr>m_i := ?i + 1\<rparr>"
    show ?thesis
    proof (cases "?j + ?i \<in> strip")
      case True
      then have "scan_row ps strip ?it1 = (found, it')"
        using "1.prems" lt by (subst (asm) scan_row.simps) simp
      from "1.IH"(1) [OF lt True this] have rs: "row_spec ps strip ?it1 found it'" .
      show ?thesis using True by (intro row_spec_step [OF rs]) (simp_all add: hit_def stop_def)
    next
      case ns: False
      show ?thesis
      proof (cases "pruned ps ?q ?rthr ?i ?j")
        case pr: True
        then have gt: "dgreater (bigger_ratio (card_ratio_of (window_size ps ?i ?j) (bsize ?q))) ?rthr"
          by (simp add: pruned_def)
        show ?thesis
        proof (cases "short_side ps ?q ?i ?j")
          case True
          then have sh: "subseq_short (card_ratio_of (window_size ps ?i ?j) (bsize ?q))"
            by (simp add: short_side_def)
          have "scan_row ps strip ?it1 = (found, it')"
            using "1.prems" lt ns gt sh by (subst (asm) scan_row.simps) simp
          from "1.IH"(2) [OF lt ns gt sh this] have rs: "row_spec ps strip ?it1 found it'" .
          show ?thesis using pr True by (intro row_spec_step [OF rs]) (simp_all add: hit_def stop_def)
        next
          case False
          then have sh: "\<not> subseq_short (card_ratio_of (window_size ps ?i ?j) (bsize ?q))"
            by (simp add: short_side_def)
          have "scan_row ps strip it = (False, it)"
            using lt ns gt sh by (subst scan_row.simps) simp
          then have "found = False" "it' = it" using "1.prems" by simp_all
          then show ?thesis using ns pr False by (auto simp: row_spec_def stop_def)
        qed
      next
        case npr: False
        then have ngt: "\<not> dgreater (bigger_ratio (card_ratio_of (window_size ps ?i ?j) (bsize ?q))) ?rthr"
          by (simp add: pruned_def)
        let ?s = "sorensen_dice_coef (split_union ps ?i ?j) ?q"
        show ?thesis
        proof (cases "dless ?s ?thr")
          case True
          let ?it2 = "it\<lparr>m_sdc := ?s, m_i := ?i + 1\<rparr>"
          have "scan_row ps strip ?it2 = (found, it')"
            using "1.prems" lt ns ngt True by (subst (asm) scan_row.simps) simp
          from "1.IH"(3) [OF lt ns ngt True this] have rs: "row_spec ps strip ?it2 found it'" .
          show ?thesis using npr True
            by (intro row_spec_step [OF rs]) (simp_all add: hit_def stop_def sdc_at_def)
        next
          case False
          have "scan_row ps strip it = (True, it\<lparr>m_sdc := ?s\<rparr>)"
            using lt ns ngt False by (subst scan_row.simps) simp
          then have "found = True" "it' = it\<lparr>m_sdc := ?s\<rparr>" using "1.prems" by simp_all
          then show ?thesis using lt ns npr False by (auto simp: row_spec_def hit_def sdc_at_def)
        qed
      qed
    qed
  qed
qed

text \<open>
  Positions are pairs \<open>(i, j)\<close>, ordered with the column \<open>j\<close> first. A cell qualifies as a
  match when neither end of its window is a strip token and its coefficient is not below
  the threshold. The pruning is sound when a pruned cell has a coefficient below the
  threshold, and so has every longer window of the column after a break.
\<close>

definition pos :: "iterator \<Rightarrow> nat \<times> nat" where
  "pos it = (m_i it, m_j it)"

definition pos_less :: "nat \<times> nat \<Rightarrow> nat \<times> nat \<Rightarrow> bool" where
  "pos_less p p' \<longleftrightarrow> snd p < snd p' \<or> (snd p = snd p' \<and> fst p < fst p')"

definition pos_le :: "nat \<times> nat \<Rightarrow> nat \<times> nat \<Rightarrow> bool" where
  "pos_le p p' \<longleftrightarrow> p = p' \<or> pos_less p p'"

definition qualifies ::
  "basic_bigrams list \<Rightarrow> nat set \<Rightarrow> basic_bigrams \<Rightarrow> double \<Rightarrow> nat \<Rightarrow> nat \<Rightarrow> bool" where
  "qualifies ps strip q thr i j \<longleftrightarrow>
     j \<notin> strip \<and> j + i \<notin> strip \<and> \<not> dless (sdc_at ps q i j) thr"

definition prune_sound :: "basic_bigrams list \<Rightarrow> basic_bigrams \<Rightarrow> double \<Rightarrow> double \<Rightarrow> bool" where
  "prune_sound ps q thr rthr \<longleftrightarrow>
     (\<forall>i j. i + j < length ps \<and> pruned ps q rthr i j \<longrightarrow> dless (sdc_at ps q i j) thr) \<and>
     (\<forall>i i' j. i \<le> i' \<and> i' + j < length ps \<and> pruned ps q rthr i j \<and> \<not> short_side ps q i j
        \<longrightarrow> dless (sdc_at ps q i' j) thr)"

definition at_hit :: "basic_bigrams list \<Rightarrow> nat set \<Rightarrow> iterator \<Rightarrow> bool" where
  "at_hit ps strip it \<longleftrightarrow>
     m_i it + m_j it < length ps \<and> m_j it \<notin> strip \<and>
     hit ps strip (m_bigrams it) (m_sdc_threshold it) (m_card_ratio_threshold it) (m_i it) (m_j it) \<and>
     m_sdc it = sdc_at ps (m_bigrams it) (m_i it) (m_j it)"

definition at_end :: "basic_bigrams list \<Rightarrow> iterator \<Rightarrow> bool" where
  "at_end ps it \<longleftrightarrow> m_i it = 0 \<and> m_j it = length ps"

lemma pos_less_trans: "pos_less a b \<Longrightarrow> pos_less b c \<Longrightarrow> pos_less a c"
  by (auto simp: pos_less_def)

lemma pos_le_trans: "pos_le a b \<Longrightarrow> pos_le b c \<Longrightarrow> pos_le a c"
  by (auto simp: pos_le_def pos_less_def)

lemma row_complete:
  assumes rs: "row_spec ps strip it found it'"
    and snd: "prune_sound ps (m_bigrams it) (m_sdc_threshold it) (m_card_ratio_threshold it)"
    and k: "m_i it \<le> k" "k + m_j it < length ps" "found \<longrightarrow> k < m_i it'"
  shows "\<not> qualifies ps strip (m_bigrams it) (m_sdc_threshold it) k (m_j it)"
proof (cases "k < m_i it'")
  case True
  then have nh: "\<not> hit ps strip (m_bigrams it) (m_sdc_threshold it) (m_card_ratio_threshold it) k (m_j it)"
    using rs k(1) unfolding row_spec_def by blast
  show ?thesis
  proof (cases "pruned ps (m_bigrams it) (m_card_ratio_threshold it) k (m_j it)")
    case True
    then have "dless (sdc_at ps (m_bigrams it) k (m_j it)) (m_sdc_threshold it)"
      using snd k(2) unfolding prune_sound_def by blast
    then show ?thesis by (simp add: qualifies_def)
  next
    case False
    then show ?thesis using nh by (auto simp: qualifies_def hit_def)
  qed
next
  case False
  then have nf: "\<not> found" and ge: "m_i it' \<le> k" using k(3) by auto
  then have "length ps - m_j it \<le> m_i it' \<or>
        stop ps strip (m_bigrams it) (m_card_ratio_threshold it) (m_i it') (m_j it)"
    using rs unfolding row_spec_def by blast
  then have "stop ps strip (m_bigrams it) (m_card_ratio_threshold it) (m_i it') (m_j it)"
    using ge k(2) by auto
  then have "pruned ps (m_bigrams it) (m_card_ratio_threshold it) (m_i it') (m_j it)"
    "\<not> short_side ps (m_bigrams it) (m_i it') (m_j it)"
    by (simp_all add: stop_def)
  then have "dless (sdc_at ps (m_bigrams it) k (m_j it)) (m_sdc_threshold it)"
    using snd ge k(2) unfolding prune_sound_def by blast
  then show ?thesis by (simp add: qualifies_def)
qed

lemma scan_shape:
  "m_i it = 0 \<or> m_j it \<notin> strip \<Longrightarrow>
   same_query it (scan ps strip it) \<and>
   (length ps \<le> m_j it \<longrightarrow> scan ps strip it = it) \<and>
   (m_j it < length ps \<longrightarrow>
      pos_le (pos it) (pos (scan ps strip it)) \<and>
      (at_hit ps strip (scan ps strip it) \<or> at_end ps (scan ps strip it)))"
proof (induction "length ps - m_j it" arbitrary: it rule: less_induct)
  case less
  note pre = less.prems
  show ?case
  proof (cases "m_j it < length ps")
    case False
    then have "scan ps strip it = it" by (subst scan.simps) simp
    then show ?thesis using False by simp
  next
    case lt: True
    show ?thesis
    proof (cases "m_j it \<in> strip")
      case True
      then have i0: "m_i it = 0" using pre by simp
      let ?it1 = "it\<lparr>m_j := m_j it + 1\<rparr>"
      have e: "scan ps strip it = scan ps strip ?it1" using lt True by (subst scan.simps) simp
      have ih: "same_query ?it1 (scan ps strip ?it1) \<and>
          (length ps \<le> m_j ?it1 \<longrightarrow> scan ps strip ?it1 = ?it1) \<and>
          (m_j ?it1 < length ps \<longrightarrow>
             pos_le (pos ?it1) (pos (scan ps strip ?it1)) \<and>
             (at_hit ps strip (scan ps strip ?it1) \<or> at_end ps (scan ps strip ?it1)))"
        using less.hyps [of ?it1] lt i0 by simp
      have p1: "pos_le (pos it) (pos ?it1)" by (simp add: pos_le_def pos_less_def pos_def)
      show ?thesis
      proof (cases "m_j ?it1 < length ps")
        case True
        then have "pos_le (pos ?it1) (pos (scan ps strip ?it1))" using ih by blast
        then have "pos_le (pos it) (pos (scan ps strip ?it1))" using p1 pos_le_trans by blast
        moreover have "same_query it (scan ps strip ?it1)" using ih by (simp add: same_query_def)
        ultimately show ?thesis using ih e lt True by simp
      next
        case False
        then have s: "scan ps strip ?it1 = ?it1" and j: "m_j it + 1 = length ps"
          using ih lt by simp_all
        show ?thesis using e s j lt p1 i0 by (simp add: at_end_def)
      qed
    next
      case ns: False
      obtain found it1 where sr: "scan_row ps strip it = (found, it1)"
        by (cases "scan_row ps strip it")
      note rs = scan_row_spec [OF sr]
      have q1: "same_query it it1" and j1: "m_j it1 = m_j it" and i1: "m_i it \<le> m_i it1"
        using rs by (simp_all add: row_spec_def)
      have qe: "m_bigrams it1 = m_bigrams it" "m_sdc_threshold it1 = m_sdc_threshold it"
        "m_card_ratio_threshold it1 = m_card_ratio_threshold it"
        using q1 by (simp_all add: same_query_def)
      show ?thesis
      proof (cases found)
        case True
        then have e: "scan ps strip it = it1" using lt ns sr by (subst scan.simps) simp
        have "at_hit ps strip it1"
          using rs True ns j1 qe lt unfolding row_spec_def at_hit_def by auto
        moreover have "pos_le (pos it) (pos it1)"
          using i1 j1 by (auto simp: pos_le_def pos_less_def pos_def)
        ultimately show ?thesis using e q1 lt by simp
      next
        case False
        let ?it2 = "it1\<lparr>m_i := 0, m_j := m_j it1 + 1\<rparr>"
        have e: "scan ps strip it = scan ps strip ?it2"
          using lt ns sr False by (subst scan.simps) simp
        have ih: "same_query ?it2 (scan ps strip ?it2) \<and>
            (length ps \<le> m_j ?it2 \<longrightarrow> scan ps strip ?it2 = ?it2) \<and>
            (m_j ?it2 < length ps \<longrightarrow>
               pos_le (pos ?it2) (pos (scan ps strip ?it2)) \<and>
               (at_hit ps strip (scan ps strip ?it2) \<or> at_end ps (scan ps strip ?it2)))"
          using less.hyps [of ?it2] lt j1 by simp
        have p2: "pos_le (pos it) (pos ?it2)"
          using j1 by (simp add: pos_le_def pos_less_def pos_def)
        have sq: "same_query it (scan ps strip ?it2)"
          using ih q1 by (simp add: same_query_def)
        show ?thesis
        proof (cases "m_j ?it2 < length ps")
          case True
          then have "pos_le (pos ?it2) (pos (scan ps strip ?it2))" using ih by blast
          then have "pos_le (pos it) (pos (scan ps strip ?it2))" using p2 pos_le_trans by blast
          then show ?thesis using ih e lt True sq by simp
        next
          case False
          then have s: "scan ps strip ?it2 = ?it2" and j: "m_j it + 1 = length ps"
            using ih lt j1 by simp_all
          show ?thesis using e s j lt p2 sq j1 by (simp add: at_end_def)
        qed
      qed
    qed
  qed
qed

lemma scan_complete:
  assumes snd: "prune_sound ps (m_bigrams it) (m_sdc_threshold it) (m_card_ratio_threshold it)"
  shows "m_i it = 0 \<or> m_j it \<notin> strip \<Longrightarrow> i + j < length ps \<Longrightarrow>
     pos_le (pos it) (i, j) \<Longrightarrow> pos_less (i, j) (pos (scan ps strip it)) \<Longrightarrow>
     \<not> qualifies ps strip (m_bigrams it) (m_sdc_threshold it) i j"
  using snd
proof (induction "length ps - m_j it" arbitrary: it rule: less_induct)
  case less
  note pre = less.prems(1) and tri = less.prems(2) and ge = less.prems(3)
    and lt' = less.prems(4) and snd = less.prems(5)
  have jj: "m_j it \<le> j" using ge by (auto simp: pos_le_def pos_less_def pos_def)
  then have lt: "m_j it < length ps" using tri by simp
  show ?case
  proof (cases "m_j it \<in> strip")
    case True
    then have i0: "m_i it = 0" using pre by simp
    let ?it1 = "it\<lparr>m_j := m_j it + 1\<rparr>"
    have e: "scan ps strip it = scan ps strip ?it1" using lt True by (subst scan.simps) simp
    show ?thesis
    proof (cases "j = m_j it")
      case True
      then show ?thesis using \<open>m_j it \<in> strip\<close> by (simp add: qualifies_def)
    next
      case False
      then have a: "pos_le (pos ?it1) (i, j)" using jj i0
        by (auto simp: pos_le_def pos_less_def pos_def)
      have b: "pos_less (i, j) (pos (scan ps strip ?it1))" using lt' e by simp
      have c: "length ps - m_j ?it1 < length ps - m_j it" using lt by simp
      have d: "m_i ?it1 = 0 \<or> m_j ?it1 \<notin> strip" using i0 by simp
      have f: "prune_sound ps (m_bigrams ?it1) (m_sdc_threshold ?it1) (m_card_ratio_threshold ?it1)"
        using snd by simp
      have "\<not> qualifies ps strip (m_bigrams ?it1) (m_sdc_threshold ?it1) i j"
        by (rule less.hyps [OF c d tri a b f])
      then show ?thesis by simp
    qed
  next
    case ns: False
    obtain found it1 where sr: "scan_row ps strip it = (found, it1)"
      by (cases "scan_row ps strip it")
    note rs = scan_row_spec [OF sr]
    have q1: "same_query it it1" and j1: "m_j it1 = m_j it" and i1: "m_i it \<le> m_i it1"
      using rs by (simp_all add: row_spec_def)
    have qe: "m_bigrams it1 = m_bigrams it" "m_sdc_threshold it1 = m_sdc_threshold it"
      "m_card_ratio_threshold it1 = m_card_ratio_threshold it"
      using q1 by (simp_all add: same_query_def)
    let ?it2 = "it1\<lparr>m_i := 0, m_j := m_j it1 + 1\<rparr>"
    have e: "scan ps strip it = (if found then it1 else scan ps strip ?it2)"
      using lt ns sr by (subst scan.simps) simp
    show ?thesis
    proof (cases "j = m_j it")
      case True
      then have k1: "m_i it \<le> i" using ge by (auto simp: pos_le_def pos_less_def pos_def)
      have k2: "i + m_j it < length ps" using tri True by simp
      have k3: "found \<longrightarrow> i < m_i it1"
      proof
        assume found
        then have "scan ps strip it = it1" using e by simp
        then have "pos_less (i, j) (pos it1)" using lt' by simp
        then show "i < m_i it1" using True j1 by (simp add: pos_less_def pos_def)
      qed
      show ?thesis using row_complete [OF rs snd k1 k2 k3] True by simp
    next
      case False
      then have jgt: "m_j it < j" using jj by simp
      have nf: "\<not> found"
      proof
        assume found
        then have "scan ps strip it = it1" using e by simp
        then have "pos_less (i, j) (pos it1)" using lt' by simp
        then show False using jgt j1 by (simp add: pos_less_def pos_def)
      qed
      have a: "pos_le (pos ?it2) (i, j)" using jgt j1
        by (auto simp: pos_le_def pos_less_def pos_def)
      have b: "pos_less (i, j) (pos (scan ps strip ?it2))" using lt' e nf by simp
      have c: "length ps - m_j ?it2 < length ps - m_j it" using lt j1 by simp
      have d: "m_i ?it2 = 0 \<or> m_j ?it2 \<notin> strip" by simp
      have f: "prune_sound ps (m_bigrams ?it2) (m_sdc_threshold ?it2) (m_card_ratio_threshold ?it2)"
        using snd qe by simp
      have "\<not> qualifies ps strip (m_bigrams ?it2) (m_sdc_threshold ?it2) i j"
        by (rule less.hyps [OF c d tri a b f])
      then show ?thesis using qe by simp
    qed
  qed
qed

subsection \<open>The coefficient and the bound on the cardinality ratio\<close>

lemma intersect_size_le:
  "bigrams_inv a \<Longrightarrow> bigrams_inv b \<Longrightarrow> intersect_size a b \<le> min (bsize a) (bsize b)"
  using intersect_loop_le [of "m_impl a" "m_impl b" 0]
  by (simp add: intersect_size_def bigrams_inv_alt bsize_def)

lemma sdc_value:
  assumes "bigrams_inv a" "bigrams_inv b"
  shows "\<exists>x. sorensen_dice_coef a b = Fin x \<and> 0 \<le> x \<and> x \<le> 1 \<and>
     (bsize a = 0 \<or> bsize b = 0 \<longrightarrow> x = 0) \<and>
     x = (if 0 < intersect_size a b
          then rnd (2 * rnd (real (intersect_size a b)) / rnd (real (bsize a + bsize b))) else 0) \<and>
     (bsize a + bsize b < 2 ^ 53 \<longrightarrow>
      x = (if 0 < intersect_size a b
           then rnd (2 * real (intersect_size a b) / real (bsize a + bsize b)) else 0))"
proof (cases "intersect_size a b = 0")
  case True
  then show ?thesis by (simp add: sorensen_dice_coef_def)
next
  case False
  let ?I = "intersect_size a b"
  have le: "?I \<le> min (bsize a) (bsize b)" using assms by (rule intersect_size_le)
  have I: "0 < ?I" using False by simp
  have two: "2 * ?I \<le> bsize a + bsize b" using le by simp
  from coef_value [OF I two] obtain x where
    x: "ddiv (dmul (Fin 2) (double_of_size ?I)) (double_of_size (bsize a + bsize b)) = Fin x"
    and xb: "0 \<le> x" "x \<le> 1"
    and xv: "x = rnd (2 * rnd (real ?I) / rnd (real (bsize a + bsize b)))"
    and xs: "bsize a + bsize b < 2 ^ 53 \<longrightarrow> x = rnd (2 * real ?I / real (bsize a + bsize b))"
    by blast
  have v: "sorensen_dice_coef a b = Fin x"
    using False x by (simp only: sorensen_dice_coef_def Let_def if_True simp_thms)
  have b4: "\<not> (bsize a = 0 \<or> bsize b = 0)" using le False by auto
  show ?thesis using v xb xv xs b4 I by (intro exI [of _ x]) simp
qed

text \<open>
  The bound of the class documentation, over the real numbers: a coefficient \<open>x\<close> of the sizes
  \<open>A\<close> and \<open>B\<close> is below the threshold \<open>t\<close> when the ratio of the bigger size to the smaller one
  exceeds \<open>2 / t - 1\<close>.
\<close>

lemma ratio_bound_arith:
  fixes x t :: real and A B :: nat
  assumes "0 < A" "0 < t" "x * real (A + B) \<le> 2 * real (min A B)"
    and "(B < A \<and> (B = 0 \<or> real A / real B > 2 / t - 1)) \<or> (A \<le> B \<and> real B / real A > 2 / t - 1)"
  shows "x < t"
proof -
  have ab: "0 < real (A + B)" using assms(1) by simp
  consider (z) "B = 0" | (s) "0 < B" "B < A" "real A / real B > 2 / t - 1"
    | (l) "A \<le> B" "real B / real A > 2 / t - 1"
    using assms(4) by auto
  then show ?thesis
  proof cases
    case z
    then have "x * real A \<le> 0" using assms(3) by simp
    then have "x \<le> 0" using assms(1) by (simp add: mult_le_0_iff)
    then show ?thesis using assms(2) by simp
  next
    case s
    have "2 / t < real A / real B + 1" using s(3) by simp
    also have "\<dots> = real (A + B) / real B" using s(1) by (simp add: field_simps)
    finally have "2 / t < real (A + B) / real B" .
    then have "2 * real B < t * real (A + B)" using s(1) assms(2) by (simp add: field_simps)
    moreover have "x * real (A + B) \<le> 2 * real B" using assms(3) s(2) by simp
    ultimately have "x * real (A + B) < t * real (A + B)" by simp
    then show ?thesis using ab by simp
  next
    case l
    have "2 / t < real B / real A + 1" using l(2) by simp
    also have "\<dots> = real (A + B) / real A" using assms(1) by (simp add: field_simps)
    finally have "2 / t < real (A + B) / real A" .
    then have "2 * real A < t * real (A + B)" using assms(1,2) by (simp add: field_simps)
    moreover have "x * real (A + B) \<le> 2 * real A" using assms(3) l(1) by simp
    ultimately have "x * real (A + B) < t * real (A + B)" by simp
    then show ?thesis using ab by simp
  qed
qed

lemma no_hit_above_one:
  assumes ps: "\<forall>p \<in> set ps. bigrams_inv p" and q: "bigrams_inv q"
    and thr: "dless (Fin 1) thr" and tri: "i + j < length ps"
  shows "\<not> hit ps strip q thr rthr i j"
proof -
  from split_union_props [OF ps tri] have inv: "bigrams_inv (split_union ps i j)" by simp
  from sdc_value [OF inv q] obtain x where
    x: "sorensen_dice_coef (split_union ps i j) q = Fin x" and x1: "x \<le> 1" by blast
  have "dless (Fin x) thr" using thr x1 by (cases thr) simp_all
  then show ?thesis using x by (simp add: hit_def sdc_at_def)
qed


section \<open>The loop of a caller over all matches\<close>

text \<open>
  \<^verbatim>\<open>for (auto match = matcher.begin(q, thr); match != matcher.end(); ++match)\<close>, collecting
  the position \<open>(i, j)\<close> of each match. The loop is bounded by fuel: \<open>None\<close> is the loop
  that has not ended when the fuel is spent (or a failed assertion of the matrix).
\<close>

fun matches_loop :: "nat \<Rightarrow> iterator \<Rightarrow> sequence_matcher \<Rightarrow> (nat \<times> nat) list option" where
  "matches_loop 0 it m = None"
| "matches_loop (Suc fuel) it m =
     (case matcher_end m of
        None \<Rightarrow> None
      | Some (e, m1) \<Rightarrow>
          if iterator_eq it e then Some []
          else (case increment it m1 of
                  None \<Rightarrow> None
                | Some (it', m2) \<Rightarrow>
                    map_option ((#) (m_i it, m_j it)) (matches_loop fuel it' m2)))"

definition all_matches ::
  "nat \<Rightarrow> sequence_matcher \<Rightarrow> basic_bigrams \<Rightarrow> double \<Rightarrow> (nat \<times> nat) list option" where
  "all_matches fuel m q thr =
     (case matcher_begin m q thr of
        None \<Rightarrow> None
      | Some (it, m1) \<Rightarrow> matches_loop fuel it m1)"

text \<open>The same loop over the tokens alone.\<close>

definition fresh_iterator :: "basic_bigrams \<Rightarrow> double \<Rightarrow> nat \<Rightarrow> nat \<Rightarrow> iterator" where
  "fresh_iterator bgrms threshold i j =
     \<lparr>m_bigrams = bgrms, m_sdc_threshold = threshold,
      m_card_ratio_threshold = dsub (ddiv (Fin 2) threshold) (Fin 1),
      m_i = i, m_j = j, m_sdc = Fin 0\<rparr>"

fun scan_loop :: "nat \<Rightarrow> basic_bigrams list \<Rightarrow> nat set \<Rightarrow> iterator \<Rightarrow> (nat \<times> nat) list option" where
  "scan_loop 0 ps strip it = None"
| "scan_loop (Suc fuel) ps strip it =
     (if at_end ps it then Some []
      else map_option ((#) (pos it))
             (scan_loop fuel ps strip (scan ps strip (it\<lparr>m_i := m_i it + 1\<rparr>))))"

lemma iterator_ctor_fresh:
  "iterator_ctor m q thr i j = next_match (fresh_iterator q thr i j) m"
  by (simp add: iterator_ctor_def fresh_iterator_def)

lemma fresh_iterator_sel [simp]:
  "m_bigrams (fresh_iterator q thr i j) = q"
  "m_sdc_threshold (fresh_iterator q thr i j) = thr"
  "m_card_ratio_threshold (fresh_iterator q thr i j) = dsub (ddiv (Fin 2) thr) (Fin 1)"
  "m_i (fresh_iterator q thr i j) = i"
  "m_j (fresh_iterator q thr i j) = j"
  "m_sdc (fresh_iterator q thr i j) = Fin 0"
  by (simp_all add: fresh_iterator_def)

lemma matcher_end_value:
  "matcher_end m = Some (fresh_iterator bigrams_empty (Fin 0) 0 (msize m), m)"
  by (simp add: matcher_end_def iterator_end_def iterator_ctor_fresh next_match.simps)

lemma matcher_begin_scan:
  "matcher_inv m \<Longrightarrow>
   \<exists>m'. matcher_begin m q thr = Some (scan (row0 m) (m_strip_ixs m) (fresh_iterator q thr 0 0), m') \<and>
        matcher_inv m' \<and> same_tokens m m'"
  unfolding matcher_begin_def iterator_ctor_fresh by (rule next_match_scan)

lemma increment_scan:
  "matcher_inv m \<Longrightarrow>
   \<exists>m'. increment it m = Some (scan (row0 m) (m_strip_ixs m) (it\<lparr>m_i := m_i it + 1\<rparr>), m') \<and>
        matcher_inv m' \<and> same_tokens m m'"
  unfolding increment_def by (rule next_match_scan)

lemma matches_loop_scan_loop:
  "matcher_inv m \<Longrightarrow> matches_loop fuel it m = scan_loop fuel (row0 m) (m_strip_ixs m) it"
proof (induction fuel arbitrary: it m)
  case 0
  show ?case by simp
next
  case (Suc fuel)
  have lr: "length (row0 m) = msize m" using Suc.prems by (rule length_row0)
  have eq: "iterator_eq it (fresh_iterator bigrams_empty (Fin 0) 0 (msize m)) = at_end (row0 m) it"
    by (simp add: iterator_eq_def at_end_def lr)
  from increment_scan [OF Suc.prems, of it] obtain m' where
    inc: "increment it m = Some (scan (row0 m) (m_strip_ixs m) (it\<lparr>m_i := m_i it + 1\<rparr>), m')" and
    inv': "matcher_inv m'" and st: "same_tokens m m'" by blast
  have "matches_loop fuel (scan (row0 m) (m_strip_ixs m) (it\<lparr>m_i := m_i it + 1\<rparr>)) m' =
      scan_loop fuel (row0 m) (m_strip_ixs m) (scan (row0 m) (m_strip_ixs m) (it\<lparr>m_i := m_i it + 1\<rparr>))"
    using Suc.IH [OF inv'] st by (simp add: same_tokens_def)
  then show ?case using eq inc by (simp add: matcher_end_value pos_def)
qed

lemma all_matches_scan_loop:
  assumes "matcher_inv m"
  shows "all_matches fuel m q thr =
     scan_loop fuel (row0 m) (m_strip_ixs m) (scan (row0 m) (m_strip_ixs m) (fresh_iterator q thr 0 0))"
proof -
  from matcher_begin_scan [OF assms, of q thr] obtain m' where
    b: "matcher_begin m q thr = Some (scan (row0 m) (m_strip_ixs m) (fresh_iterator q thr 0 0), m')" and
    inv': "matcher_inv m'" and st: "same_tokens m m'" by blast
  show ?thesis
    using b matches_loop_scan_loop [OF inv'] st by (simp add: all_matches_def same_tokens_def)
qed

lemma rank_less:
  "pos_less (i, j) (i', j') \<Longrightarrow> i \<le> n \<Longrightarrow> j * (n + 1) + i < j' * (n + 1) + i'"
proof -
  assume pl: "pos_less (i, j) (i', j')" and i: "i \<le> n"
  show ?thesis
  proof (cases "j < j'")
    case True
    then have "(j + 1) * (n + 1) \<le> j' * (n + 1)" by (intro mult_le_mono1) simp
    then show ?thesis using i by simp
  next
    case False
    then show ?thesis using pl by (simp add: pos_less_def)
  qed
qed

lemma hit_qualifies:
  "j \<notin> strip \<Longrightarrow> hit ps strip q thr rthr i j \<Longrightarrow> qualifies ps strip q thr i j"
  by (simp add: hit_def qualifies_def)

lemma qualifies_hit:
  "prune_sound ps q thr rthr \<Longrightarrow> i + j < length ps \<Longrightarrow> qualifies ps strip q thr i j \<Longrightarrow>
   hit ps strip q thr rthr i j"
  unfolding prune_sound_def qualifies_def hit_def by blast

lemma pos_less_le_trans: "pos_less a b \<Longrightarrow> pos_le b c \<Longrightarrow> pos_less a c"
  by (auto simp: pos_le_def pos_less_def)

lemma pos_le_less_trans: "pos_le a b \<Longrightarrow> pos_less b c \<Longrightarrow> pos_less a c"
  by (auto simp: pos_le_def pos_less_def)

lemma pos_total: "\<not> pos_less a b \<Longrightarrow> pos_le b a"
  by (cases a; cases b) (auto simp: pos_le_def pos_less_def)

definition loop_spec ::
  "basic_bigrams list \<Rightarrow> nat set \<Rightarrow> iterator \<Rightarrow> (nat \<times> nat) list \<Rightarrow> bool" where
  "loop_spec ps strip it ms \<longleftrightarrow>
     sorted_wrt pos_less ms \<and>
     (\<forall>p \<in> set ms. pos_le (pos it) p \<and> fst p + snd p < length ps \<and> snd p \<notin> strip \<and>
        hit ps strip (m_bigrams it) (m_sdc_threshold it) (m_card_ratio_threshold it) (fst p) (snd p)) \<and>
     (prune_sound ps (m_bigrams it) (m_sdc_threshold it) (m_card_ratio_threshold it) \<longrightarrow>
        (\<forall>i j. i + j < length ps \<and> pos_le (pos it) (i, j) \<and>
           qualifies ps strip (m_bigrams it) (m_sdc_threshold it) i j \<longrightarrow> (i, j) \<in> set ms))"

lemma scan_loop_spec:
  "at_hit ps strip it \<or> at_end ps it \<Longrightarrow>
   length ps * (length ps + 1) < fuel + (m_j it * (length ps + 1) + m_i it) \<Longrightarrow>
   \<exists>ms. scan_loop fuel ps strip it = Some ms \<and> loop_spec ps strip it ms"
proof (induction fuel arbitrary: it)
  case 0
  from "0.prems"(1) have "m_j it * (length ps + 1) + m_i it \<le> length ps * (length ps + 1)"
  proof
    assume "at_hit ps strip it"
    then have "m_i it + m_j it < length ps" by (simp add: at_hit_def)
    then have "m_j it + 1 \<le> length ps" "m_i it \<le> length ps" by simp_all
    then have "(m_j it + 1) * (length ps + 1) \<le> length ps * (length ps + 1)"
      by (intro mult_le_mono1)
    then show ?thesis using \<open>m_i it \<le> length ps\<close> by simp
  next
    assume "at_end ps it"
    then show ?thesis by (simp add: at_end_def)
  qed
  then show ?case using "0.prems"(2) by simp
next
  case (Suc fuel)
  let ?N = "length ps"
  let ?q = "m_bigrams it" and ?thr = "m_sdc_threshold it" and ?rthr = "m_card_ratio_threshold it"
  show ?case
  proof (cases "at_end ps it")
    case True
    have "\<not> (i + j < ?N \<and> pos_le (pos it) (i, j))" for i j
      using True by (auto simp: at_end_def pos_le_def pos_less_def pos_def)
    then have "loop_spec ps strip it []" unfolding loop_spec_def by auto
    then show ?thesis using True by simp
  next
    case False
    then have ah: "at_hit ps strip it" using Suc.prems(1) by simp
    then have tri: "m_i it + m_j it < ?N" and ns: "m_j it \<notin> strip"
      and h: "hit ps strip ?q ?thr ?rthr (m_i it) (m_j it)"
      by (simp_all add: at_hit_def)
    let ?it1 = "it\<lparr>m_i := m_i it + 1\<rparr>"
    let ?it' = "scan ps strip ?it1"
    have pre: "m_i ?it1 = 0 \<or> m_j ?it1 \<notin> strip" using ns by simp
    from scan_shape [OF pre, of ps] tri have
      sq: "same_query ?it1 ?it'" and ple: "pos_le (pos ?it1) (pos ?it')" and
      st: "at_hit ps strip ?it' \<or> at_end ps ?it'" by simp_all
    have qe: "m_bigrams ?it' = ?q" "m_sdc_threshold ?it' = ?thr" "m_card_ratio_threshold ?it' = ?rthr"
      using sq by (simp_all add: same_query_def)
    have p01: "pos_less (pos it) (pos ?it1)" by (simp add: pos_less_def pos_def)
    have pl: "pos_less (pos it) (pos ?it')" using p01 ple by (rule pos_less_le_trans)
    have "m_j it * (?N + 1) + m_i it < m_j ?it' * (?N + 1) + m_i ?it'"
      using pl tri by (intro rank_less) (simp_all add: pos_def)
    then have fu: "?N * (?N + 1) < fuel + (m_j ?it' * (?N + 1) + m_i ?it')"
      using Suc.prems(2) by simp
    from Suc.IH [OF st fu] obtain ms' where
      sl: "scan_loop fuel ps strip ?it' = Some ms'" and ls: "loop_spec ps strip ?it' ms'" by blast
    have res: "scan_loop (Suc fuel) ps strip it = Some (pos it # ms')"
      using False sl by simp
    have el: "\<forall>p \<in> set ms'. pos_le (pos ?it') p \<and> fst p + snd p < ?N \<and> snd p \<notin> strip \<and>
        hit ps strip ?q ?thr ?rthr (fst p) (snd p)"
      using ls qe by (simp add: loop_spec_def)
    have s1: "sorted_wrt pos_less (pos it # ms')"
    proof -
      have "\<forall>p \<in> set ms'. pos_less (pos it) p" using el pl pos_less_le_trans by blast
      moreover have "sorted_wrt pos_less ms'" using ls by (simp add: loop_spec_def)
      ultimately show ?thesis by simp
    qed
    have s2: "\<forall>p \<in> set (pos it # ms'). pos_le (pos it) p \<and> fst p + snd p < ?N \<and> snd p \<notin> strip \<and>
        hit ps strip ?q ?thr ?rthr (fst p) (snd p)"
    proof
      fix p assume "p \<in> set (pos it # ms')"
      then consider "p = pos it" | "p \<in> set ms'" by auto
      then show "pos_le (pos it) p \<and> fst p + snd p < ?N \<and> snd p \<notin> strip \<and>
          hit ps strip ?q ?thr ?rthr (fst p) (snd p)"
      proof cases
        case 1
        then show ?thesis using tri ns h by (simp add: pos_def pos_le_def)
      next
        case 2
        then have "pos_less (pos it) p" using el pl pos_less_le_trans by blast
        then show ?thesis using el 2 by (simp add: pos_le_def)
      qed
    qed
    have s3: "(i, j) \<in> set (pos it # ms')"
      if ps: "prune_sound ps ?q ?thr ?rthr" and c: "i + j < ?N" "pos_le (pos it) (i, j)"
        "qualifies ps strip ?q ?thr i j" for i j
    proof (cases "(i, j) = pos it")
      case True
      then show ?thesis by simp
    next
      case False
      then have "pos_less (pos it) (i, j)" using c(2) by (auto simp: pos_le_def)
      then have c1: "pos_le (pos ?it1) (i, j)"
        by (auto simp: pos_le_def pos_less_def pos_def)
      have ps1: "prune_sound ps (m_bigrams ?it1) (m_sdc_threshold ?it1) (m_card_ratio_threshold ?it1)"
        using ps by simp
      have "\<not> pos_less (i, j) (pos ?it')"
      proof
        assume "pos_less (i, j) (pos ?it')"
        from scan_complete [OF ps1 pre c(1) c1 this] show False using c(3) by simp
      qed
      then have "pos_le (pos ?it') (i, j)" by (rule pos_total)
      then have "(i, j) \<in> set ms'" using ls ps c(1,3) qe unfolding loop_spec_def by simp
      then show ?thesis by simp
    qed
    have "loop_spec ps strip it (pos it # ms')"
      unfolding loop_spec_def using s1 s2 s3 by blast
    then show ?thesis using res by simp
  qed
qed

lemma scan_from_origin:
  fixes ps strip q thr
  defines "it0 \<equiv> scan ps strip (fresh_iterator q thr 0 0)"
  shows "(at_hit ps strip it0 \<or> at_end ps it0) \<and>
     m_bigrams it0 = q \<and> m_sdc_threshold it0 = thr \<and>
     m_card_ratio_threshold it0 = dsub (ddiv (Fin 2) thr) (Fin 1) \<and>
     (prune_sound ps q thr (dsub (ddiv (Fin 2) thr) (Fin 1)) \<longrightarrow>
        (\<forall>i j. i + j < length ps \<and> pos_less (i, j) (pos it0) \<longrightarrow> \<not> qualifies ps strip q thr i j))"
proof -
  let ?f = "fresh_iterator q thr 0 0"
  have pre: "m_i ?f = 0 \<or> m_j ?f \<notin> strip" by simp
  note sh = scan_shape [OF pre, of ps]
  have sq: "same_query ?f it0" using sh by (simp add: it0_def)
  then have qe: "m_bigrams it0 = q" "m_sdc_threshold it0 = thr"
    "m_card_ratio_threshold it0 = dsub (ddiv (Fin 2) thr) (Fin 1)"
    by (simp_all add: same_query_def)
  have st: "at_hit ps strip it0 \<or> at_end ps it0"
  proof (cases "0 < length ps")
    case True
    then show ?thesis using sh by (simp add: it0_def)
  next
    case False
    then have "it0 = ?f" using sh by (simp add: it0_def)
    then show ?thesis using False by (simp add: at_end_def)
  qed
  have co: "\<not> qualifies ps strip q thr i j"
    if ps: "prune_sound ps q thr (dsub (ddiv (Fin 2) thr) (Fin 1))"
      and c: "i + j < length ps" "pos_less (i, j) (pos it0)" for i j
  proof -
    have ps': "prune_sound ps (m_bigrams ?f) (m_sdc_threshold ?f) (m_card_ratio_threshold ?f)"
      using ps by simp
    have le: "pos_le (pos ?f) (i, j)"
      by (cases "i = 0 \<and> j = 0") (auto simp: pos_le_def pos_less_def pos_def)
    have "pos_less (i, j) (pos (scan ps strip ?f))" using c(2) by (simp add: it0_def)
    from scan_complete [OF ps' pre c(1) le this] show ?thesis by simp
  qed
  show ?thesis using st qe co by blast
qed

section \<open>Claims about the bigram profiles\<close>








text \<open>
  Claim C5. The profile of a string \<open>s\<close> has size \<open>max 0 (|s| - 1)\<close> and holds exactly the
  bigrams \<open>(s[k], s[k+1])\<close> for \<open>k\<close> in \<open>[0, |s| - 2]\<close>, with multiplicity; a string shorter
  than 2 gives the empty profile. This holds for the counted representation and for both
  multiset representations.
\<close>

theorem profile_of_string:
  "int (bsize (bigrams_of_string s)) = max 0 (int (length s) - 1) \<and>
   mset_of (bigrams_of_string s) = mset (map (\<lambda>k. (s ! k, s ! (k + 1))) [0..<length s - 1]) \<and>
   (length s < 2 \<longrightarrow> bigrams_of_string s = bigrams_empty) \<and>
   int (bm_size (bm_of_string multiset_insert s)) = max 0 (int (length s) - 1) \<and>
   mset (bm_of_string multiset_insert s) = mset (map (\<lambda>k. (s ! k, s ! (k + 1))) [0..<length s - 1]) \<and>
   (length s < 2 \<longrightarrow> bm_of_string multiset_insert s = []) \<and>
   (container_insert ins \<longrightarrow>
      int (bm_size (bm_of_string ins s)) = max 0 (int (length s) - 1) \<and>
      mset (bm_of_string ins s) = mset (map (\<lambda>k. (s ! k, s ! (k + 1))) [0..<length s - 1]) \<and>
      (length s < 2 \<longrightarrow> bm_of_string ins s = []))"
proof -
  have n: "int (length s - 1) = max 0 (int (length s) - 1)" by auto
  have c: "create_bigrams s = map (\<lambda>k. (s ! k, s ! (k + 1))) [0..<length s - 1]"
    by (simp add: create_bigrams_def)
  have e: "length s < 2 \<longrightarrow> bm_of_string ins' s = []" for ins'
    by (simp add: bm_of_string_def)
  have b: "int (bm_size (bm_of_string ins' s)) = max 0 (int (length s) - 1) \<and>
      mset (bm_of_string ins' s) = mset (map (\<lambda>k. (s ! k, s ! (k + 1))) [0..<length s - 1])"
    if "container_insert ins'" for ins'
    using bm_of_string_size [OF that, of s] bm_of_string_mset [OF that, of s] n c by simp
  have a: "int (bsize (bigrams_of_string s)) = max 0 (int (length s) - 1)"
    using bsize_of_string [of s] n by simp
  have m: "mset_of (bigrams_of_string s) = mset (map (\<lambda>k. (s ! k, s ! (k + 1))) [0..<length s - 1])"
    using mset_of_string [of s] c by simp
  have z: "length s < 2 \<longrightarrow> bigrams_of_string s = bigrams_empty"
    by (simp add: bigrams_of_string_def)
  show ?thesis using a m z b [OF container_insert_multiset] b e by blast
qed

theorem profile_of_string_witness:
  "container_insert (#) \<and>
   int (bsize (bigrams_of_string ''abcb'')) = max 0 (int (length ''abcb'') - 1) \<and>
   mset_of (bigrams_of_string ''abcb'') =
     mset (map (\<lambda>k. (''abcb'' ! k, ''abcb'' ! (k + 1))) [0..<length ''abcb'' - 1]) \<and>
   \<not> length ''abcb'' < 2 \<and> length ''a'' < 2 \<and> bigrams_of_string ''a'' = bigrams_empty \<and>
   bm_of_string multiset_insert ''a'' = [] \<and> bm_of_string (#) ''a'' = [] \<and>
   int (bm_size (bm_of_string (#) ''abcb'')) = max 0 (int (length ''abcb'') - 1) \<and>
   mset (bm_of_string (#) ''abcb'') =
     mset (map (\<lambda>k. (''abcb'' ! k, ''abcb'' ! (k + 1))) [0..<length ''abcb'' - 1])"
proof -
  have l: "\<not> length ''abcb'' < 2" "length ''a'' < 2" by simp_all
  show ?thesis
    using profile_of_string [of "''abcb''" "(#)"] profile_of_string [of "''a''" "(#)"]
      container_insert_Cons l
    by blast
qed

text \<open>
  What holds of the coefficient in every representation: it is the rounded quotient of
  \<open>2 * k\<close> and \<open>size P + size Q\<close> for the count \<open>k\<close> of \<^const>\<open>intersect_size\<close> (the sizes are
  converted exactly when they are below \<open>2^53\<close>), or 0 when \<open>k\<close> is 0; it lies in \<open>[0, 1]\<close> and
  is 0 when a profile is empty. For the counted representation (under its invariant) and for
  sorted containers \<open>k\<close> is the cardinality of the multiset intersection. For a container that
  is not sorted it need not be.
\<close>

lemma bm_sdc_value:
  "\<exists>x. bm_sorensen_dice_coef a b = Fin x \<and> 0 \<le> x \<and> x \<le> 1 \<and>
     (bm_size a = 0 \<or> bm_size b = 0 \<longrightarrow> x = 0) \<and>
     (bm_size a + bm_size b < 2 ^ 53 \<longrightarrow>
      x = (if 0 < bm_intersect_size a b
           then rnd (2 * real (bm_intersect_size a b) / real (bm_size a + bm_size b)) else 0))"
proof (cases "bm_intersect_size a b = 0")
  case True
  then show ?thesis by (simp add: bm_sorensen_dice_coef_def)
next
  case False
  let ?I = "bm_intersect_size a b"
  have le: "?I \<le> min (bm_size a) (bm_size b)"
    using set_intersection_le [of a b 0] by (simp add: bm_intersect_size_def bm_size_def)
  have I: "0 < ?I" using False by simp
  have two: "2 * ?I \<le> bm_size a + bm_size b" using le by simp
  from coef_value [OF I two] obtain x where
    x: "ddiv (dmul (Fin 2) (double_of_size ?I)) (double_of_size (bm_size a + bm_size b)) = Fin x"
    and xb: "0 \<le> x" "x \<le> 1"
    and xs: "bm_size a + bm_size b < 2 ^ 53 \<longrightarrow>
      x = rnd (2 * real ?I / real (bm_size a + bm_size b))"
    by blast
  have v: "bm_sorensen_dice_coef a b = Fin x"
    using False x by (simp only: bm_sorensen_dice_coef_def Let_def if_True simp_thms)
  have b4: "\<not> (bm_size a = 0 \<or> bm_size b = 0)" using le False by auto
  show ?thesis using v xb xs b4 I by (intro exI [of _ x]) simp
qed

lemma bm_intersect_size_sorted:
  "sorted a \<Longrightarrow> sorted b \<Longrightarrow> bm_intersect_size a b = size (mset a \<inter># mset b)"
  by (simp add: bm_intersect_size_def set_intersection_sorted)

text \<open>
  Claim C3, at the input where the unordered representation departs from it. The strings
  \<open>abcd\<close> and \<open>cdab\<close> share the bigrams \<open>ab\<close> and \<open>cd\<close>, so that the coefficient is
  \<open>2 * 2 / (3 + 3)\<close>, which the counted and the ordered representation return (as the
  nearest double). When the hash container iterates the newest element first,
  \<^verbatim>\<open>std::set_intersection\<close> runs over \<open>[cd, bc, ab]\<close> and \<open>[ab, da, cd]\<close>, which are not sorted,
  counts no common element and the coefficient is 0.
\<close>

theorem unordered_sdc_failing_input:
  "bm_of_string (#) ''abcd'' = [(CHR ''c'', CHR ''d''), (CHR ''b'', CHR ''c''), (CHR ''a'', CHR ''b'')] \<and>
   bm_of_string (#) ''cdab'' = [(CHR ''a'', CHR ''b''), (CHR ''d'', CHR ''a''), (CHR ''c'', CHR ''d'')] \<and>
   bm_intersect_size (bm_of_string (#) ''abcd'') (bm_of_string (#) ''cdab'') = 0 \<and>
   bm_sorensen_dice_coef (bm_of_string (#) ''abcd'') (bm_of_string (#) ''cdab'') = Fin 0 \<and>
   bm_sorensen_dice_coef (bm_of_string multiset_insert ''abcd'') (bm_of_string multiset_insert ''cdab'')
     = Fin (rnd (2 * 2 / (3 + 3))) \<and>
   sorensen_dice_coef (bigrams_of_string ''abcd'') (bigrams_of_string ''cdab'')
     = Fin (rnd (2 * 2 / (3 + 3)))"
  by code_simp

section \<open>Claims about the matrix\<close>

text \<open>
  Claim C1. For a matcher of \<open>N\<close> tokens and a cell \<open>(i, j)\<close> with \<open>i + j < N\<close>,
  \<^const>\<open>bigrams_size\<close> returns the sum of the sizes of the row-0 profiles at \<open>j..j+i\<close> and
  \<^const>\<open>bigrams\<close> returns a profile whose multiset is the union of those profiles. Both
  follow the split \<open>i1 = i div 2\<close>, \<open>j1 = j\<close>, \<open>i2 = i - i1 - 1\<close>, \<open>j2 = j + i1 + 1\<close>, with row 0
  as the base case; the matcher they leave behind has the same tokens and satisfies the
  invariant again.
\<close>

theorem cell_values:
  "matcher_inv m \<Longrightarrow> i + j < msize m \<Longrightarrow>
   (\<exists>m'. bigrams_size i j m = Some (sum_list (map bsize (take (i + 1) (drop j (row0 m)))), m') \<and>
         matcher_inv m' \<and> same_tokens m m') \<and>
   (\<exists>b m'. bigrams i j m = Some (b, m') \<and>
         mset_of b = sum_list (map mset_of (take (i + 1) (drop j (row0 m)))) \<and>
         bsize b = sum_list (map bsize (take (i + 1) (drop j (row0 m)))) \<and>
         b = split_union (row0 m) i j \<and>
         matcher_inv m' \<and> same_tokens m m') \<and>
   sub_ix i j = (i div 2, j, i - i div 2 - 1, j + i div 2 + 1) \<and>
   split_union (row0 m) i j =
     (if i = 0 then row0 m ! j
      else bplus (split_union (row0 m) (i div 2) j)
                 (split_union (row0 m) (i - i div 2 - 1) (j + i div 2 + 1)))"
proof -
  assume inv: "matcher_inv m" and tri: "i + j < msize m"
  have ps: "\<forall>p \<in> set (row0 m). bigrams_inv p" using inv by (simp add: matcher_inv_def)
  have lr: "i + j < length (row0 m)" using tri length_row0 [OF inv] by simp
  note su = split_union_props [OF ps lr]
  have a: "\<exists>m'. bigrams_size i j m = Some (sum_list (map bsize (take (i + 1) (drop j (row0 m)))), m') \<and>
         matcher_inv m' \<and> same_tokens m m'"
    using bigrams_size_correct [OF inv tri] by (auto simp: window_size_def window_def)
  have b: "\<exists>b m'. bigrams i j m = Some (b, m') \<and>
         mset_of b = sum_list (map mset_of (take (i + 1) (drop j (row0 m)))) \<and>
         bsize b = sum_list (map bsize (take (i + 1) (drop j (row0 m)))) \<and>
         b = split_union (row0 m) i j \<and>
         matcher_inv m' \<and> same_tokens m m'"
    using bigrams_correct [OF inv tri] su by (auto simp: window_size_def window_def)
  have c: "sub_ix i j = (i div 2, j, i - i div 2 - 1, j + i div 2 + 1)"
    by (simp add: sub_ix_simp)
  have d: "split_union (row0 m) i j =
     (if i = 0 then row0 m ! j
      else bplus (split_union (row0 m) (i div 2) j)
                 (split_union (row0 m) (i - i div 2 - 1) (j + i div 2 + 1)))"
    by (subst split_union.simps) simp
  show ?thesis using a b c d by blast
qed

definition two_tokens :: sequence_matcher where
  "two_tokens = emplace_back ''cd'' False (emplace_back ''abc'' True matcher_new)"

lemma two_tokens_inv: "matcher_inv two_tokens"
  by (simp add: two_tokens_def matcher_inv_emplace_back matcher_inv_new)

lemma two_tokens_row0:
  "row0 two_tokens = [bigrams_of_string ''abc'', bigrams_of_string ''cd'']"
  by (simp add: two_tokens_def emplace_back_def push_back_row0 matcher_inv_push_back
      bigrams_inv_of_string matcher_inv_new) (simp add: row0_def matcher_new_def)

lemma two_tokens_size: "msize two_tokens = 2"
  using push_back_mx by (simp add: two_tokens_def emplace_back_def matcher_new_def msize_def)

theorem cell_values_witness:
  "matcher_inv two_tokens \<and> 1 + 0 < msize two_tokens \<and>
   (\<exists>m'. bigrams_size 1 0 two_tokens = Some (3, m')) \<and>
   (\<exists>b m'. bigrams 1 0 two_tokens = Some (b, m') \<and> bsize b = 3 \<and>
      mset_of b = mset_of (bigrams_of_string ''abc'') + mset_of (bigrams_of_string ''cd''))"
proof -
  have t: "1 + 0 < msize two_tokens" by (simp add: two_tokens_size)
  have s: "bsize (bigrams_of_string ''abc'') = 2" "bsize (bigrams_of_string ''cd'') = 1"
    by (simp_all add: bsize_of_string)
  show ?thesis
    using cell_values [OF two_tokens_inv t] two_tokens_inv t
    by (auto simp: two_tokens_row0 s)
qed

section \<open>Claims about the match iterator\<close>

lemma all_matches_spec:
  assumes inv: "matcher_inv m"
  shows "\<exists>ms. all_matches (msize m * (msize m + 1) + 1) m q thr = Some ms \<and>
     loop_spec (row0 m) (m_strip_ixs m)
       (scan (row0 m) (m_strip_ixs m) (fresh_iterator q thr 0 0)) ms"
proof -
  let ?ps = "row0 m" and ?S = "m_strip_ixs m"
  let ?it0 = "scan ?ps ?S (fresh_iterator q thr 0 0)"
  have lr: "length ?ps = msize m" using inv by (rule length_row0)
  from scan_from_origin [of ?ps ?S q thr] have st: "at_hit ?ps ?S ?it0 \<or> at_end ?ps ?it0" by simp
  have fu: "length ?ps * (length ?ps + 1) <
      (msize m * (msize m + 1) + 1) + (m_j ?it0 * (length ?ps + 1) + m_i ?it0)"
    by (simp add: lr)
  from scan_loop_spec [OF st fu] show ?thesis
    by (simp add: all_matches_scan_loop [OF inv])
qed

text \<open>
  The scenario of the unit test of the matcher: nine tokens, four of them strip tokens, the
  query \<open>Helo\<close>, two spaces, \<open>wordl\<close> and the threshold 0.7 (the double nearest to it). The
  only match is the window of three tokens that starts at token 3.
\<close>

definition test_matcher :: sequence_matcher where
  "test_matcher =
    emplace_back '' .'' False (emplace_back ''Epilogue'' False (
    push_back (bigrams_of_string '' !'') True (push_back (bigrams_of_string ''world'') False (
    push_back (bigrams_of_string ''  '') True (push_back (bigrams_of_string ''Hello'') False (
    emplace_back ''  '' True (emplace_back '' .'' True (
    emplace_back ''Prologue'' False matcher_new))))))))"

definition test_query :: basic_bigrams where
  "test_query =
     unite (bigrams_of_string ''Helo'') [bigrams_of_string ''  '', bigrams_of_string ''wordl'']"

lemma unit_test_matches:
  "all_matches 91 test_matcher test_query (Fin (rnd (7 / 10))) = Some [(2, 3)]"
  by code_simp


text \<open>
  What the loop over all matches returns, for a matcher that satisfies the invariant, any
  query and any threshold: it ends; every cell it reports is a cell of the triangle whose
  coefficient is not below the threshold and whose first token \<open>j\<close> and last token \<open>j + i\<close> are
  not strip tokens; and it reports all of these cells if the pruning is sound, that is if a
  cell that the cardinality ratio prunes has a coefficient below the threshold, and after a
  break (a pruned cell whose window is not the shorter side) so has every longer window of
  the same column.
\<close>

lemma reported_matches:
  assumes inv: "matcher_inv m"
  shows "\<exists>ms. all_matches (msize m * (msize m + 1) + 1) m q thr = Some ms \<and>
     set ms \<subseteq> {(i, j). i + j < msize m \<and> qualifies (row0 m) (m_strip_ixs m) q thr i j} \<and>
     (prune_sound (row0 m) q thr (dsub (ddiv (Fin 2) thr) (Fin 1)) \<longrightarrow>
        set ms = {(i, j). i + j < msize m \<and> qualifies (row0 m) (m_strip_ixs m) q thr i j})"
proof -
  let ?ps = "row0 m" and ?S = "m_strip_ixs m"
  let ?rthr = "dsub (ddiv (Fin 2) thr) (Fin 1)"
  let ?it0 = "scan ?ps ?S (fresh_iterator q thr 0 0)"
  let ?Q = "{(i, j). i + j < msize m \<and> qualifies ?ps ?S q thr i j}"
  have lr: "length ?ps = msize m" using inv by (rule length_row0)
  from scan_from_origin [of ?ps ?S q thr] have
    qe: "m_bigrams ?it0 = q" "m_sdc_threshold ?it0 = thr" "m_card_ratio_threshold ?it0 = ?rthr" and
    before: "prune_sound ?ps q thr ?rthr \<Longrightarrow> i + j < length ?ps \<Longrightarrow>
      pos_less (i, j) (pos ?it0) \<Longrightarrow> \<not> qualifies ?ps ?S q thr i j" for i j
    by simp_all
  from all_matches_spec [OF inv, of q thr] obtain ms where
    am: "all_matches (msize m * (msize m + 1) + 1) m q thr = Some ms" and
    ls: "loop_spec ?ps ?S ?it0 ms" by blast
  have el: "fst p + snd p < length ?ps \<and> snd p \<notin> ?S \<and>
      hit ?ps ?S q thr ?rthr (fst p) (snd p)" if "p \<in> set ms" for p
    using ls qe that unfolding loop_spec_def by simp
  have co: "(i, j) \<in> set ms"
    if "prune_sound ?ps q thr ?rthr" "i + j < length ?ps" "pos_le (pos ?it0) (i, j)"
      "qualifies ?ps ?S q thr i j" for i j
    using ls qe that unfolding loop_spec_def by simp
  have sub: "set ms \<subseteq> ?Q"
  proof
    fix p assume "p \<in> set ms"
    from el [OF this] show "p \<in> ?Q" by (cases p) (simp add: hit_def qualifies_def lr)
  qed
  have sup: "?Q \<subseteq> set ms" if snd: "prune_sound ?ps q thr ?rthr"
  proof
    fix p assume p: "p \<in> ?Q"
    obtain i j where ij: "p = (i, j)" by (cases p)
    have tri: "i + j < length ?ps" and qu: "qualifies ?ps ?S q thr i j"
      using p ij by (simp_all add: lr)
    have "\<not> pos_less (i, j) (pos ?it0)" using before [OF snd tri] qu by blast
    then have "pos_le (pos ?it0) (i, j)" by (rule pos_total)
    from co [OF snd tri this qu] show "p \<in> set ms" using ij by simp
  qed
  show ?thesis using am sub sup by blast
qed

text \<open>A matcher with one token, which is not a strip token.\<close>

definition one_token :: sequence_matcher where
  "one_token = emplace_back ''abcdef'' False matcher_new"

text \<open>
  Claim C2, at an input where the code departs from it. The matcher \<^const>\<open>one_token\<close> holds the
  single token \<open>abcdef\<close> (five bigrams, not a strip token), the query is the profile of \<open>abcd\<close>
  (three bigrams, all of them in the token) and the threshold is 0.75. The coefficient of the cell
  \<open>(0, 0)\<close> is \<open>2 * 3 / (5 + 3) = 0.75\<close>, not below the threshold, so that the cell satisfies
  the three conditions of the claim. Over the real numbers the ratio \<open>5 / 3\<close> equals the bound
  \<open>2 / 0.75 - 1\<close>; in doubles the quotient \<open>5 / 3\<close> is rounded up and the quotient \<open>2 / 0.75\<close>
  is rounded down, the ratio exceeds the bound, the cell is pruned and the loop reports no
  match.
\<close>

theorem pruning_drops_match_at_threshold:
  "all_matches (msize one_token * (msize one_token + 1) + 1) one_token
     (bigrams_of_string ''abcd'') (Fin (3 / 4)) = Some [] \<and>
   msize one_token = 1 \<and> 0 \<notin> m_strip_ixs one_token \<and>
   row0 one_token = [bigrams_of_string ''abcdef''] \<and>
   bigrams_size 0 0 one_token = Some (5, one_token) \<and>
   bsize (bigrams_of_string ''abcd'') = 3 \<and>
   sdc_at (row0 one_token) (bigrams_of_string ''abcd'') 0 0 = Fin (3 / 4) \<and>
   qualifies (row0 one_token) (m_strip_ixs one_token) (bigrams_of_string ''abcd'') (Fin (3 / 4)) 0 0 \<and>
   (5::real) / 3 = 2 / (3 / 4) - 1 \<and>
   card_ratio_of 5 3 = Fin (7505999378950827 / 4503599627370496) \<and>
   dsub (ddiv (Fin 2) (Fin (3 / 4))) (Fin 1) = Fin (3752999689475413 / 2251799813685248) \<and>
   pruned (row0 one_token) (bigrams_of_string ''abcd'')
     (dsub (ddiv (Fin 2) (Fin (3 / 4))) (Fin 1)) 0 0"
  by code_simp



lemma no_hit_ends:
  assumes inv: "matcher_inv m"
    and nh: "\<And>i j. i + j < msize m \<Longrightarrow>
      \<not> hit (row0 m) (m_strip_ixs m) q thr (dsub (ddiv (Fin 2) thr) (Fin 1)) i j"
  shows "(\<exists>it m1. matcher_begin m q thr = Some (it, m1) \<and> m_i it = 0 \<and> m_j it = msize m \<and>
            (\<exists>e m2. matcher_end m1 = Some (e, m2) \<and> iterator_eq it e)) \<and>
         all_matches (msize m * (msize m + 1) + 1) m q thr = Some []"
proof -
  let ?ps = "row0 m" and ?S = "m_strip_ixs m"
  let ?it0 = "scan ?ps ?S (fresh_iterator q thr 0 0)"
  have lr: "length ?ps = msize m" using inv by (rule length_row0)
  from scan_from_origin [of ?ps ?S q thr] have
    st: "at_hit ?ps ?S ?it0 \<or> at_end ?ps ?it0" and
    qe: "m_bigrams ?it0 = q" "m_sdc_threshold ?it0 = thr"
      "m_card_ratio_threshold ?it0 = dsub (ddiv (Fin 2) thr) (Fin 1)"
    by simp_all
  have "\<not> at_hit ?ps ?S ?it0" using nh [of "m_i ?it0" "m_j ?it0"] qe lr by (auto simp: at_hit_def)
  then have e: "at_end ?ps ?it0" using st by simp
  then have p: "m_i ?it0 = 0" "m_j ?it0 = msize m" using lr by (simp_all add: at_end_def)
  from matcher_begin_scan [OF inv, of q thr] obtain m1 where
    b: "matcher_begin m q thr = Some (?it0, m1)" and st1: "same_tokens m m1" by blast
  have "iterator_eq ?it0 (fresh_iterator bigrams_empty (Fin 0) 0 (msize m1))"
    using p st1 by (simp add: iterator_eq_def same_tokens_def)
  then have a: "\<exists>it m1. matcher_begin m q thr = Some (it, m1) \<and> m_i it = 0 \<and> m_j it = msize m \<and>
            (\<exists>e m2. matcher_end m1 = Some (e, m2) \<and> iterator_eq it e)"
    using b p matcher_end_value [of m1] by blast
  have "all_matches (msize m * (msize m + 1) + 1) m q thr = Some []"
    using e by (simp add: all_matches_scan_loop [OF inv])
  then show ?thesis using a by blast
qed

text \<open>
  Claim C7, as the claim states it, fails: the constructor has no check of the threshold.
  With the threshold 0 (which \<^verbatim>\<open>end()\<close> itself and the unit test pass) it returns an iterator,
  here on a match whose coefficient is 0; with a negative threshold it returns the end
  position.
\<close>

theorem threshold_zero_is_accepted:
  "map_option (pos \<circ> fst) (iterator_ctor two_tokens (bigrams_of_string ''xy'') (Fin 0) 0 0) = Some (0, 1) \<and>
   map_option (m_sdc \<circ> fst) (iterator_ctor two_tokens (bigrams_of_string ''xy'') (Fin 0) 0 0) = Some (Fin 0) \<and>
   map_option (pos \<circ> fst) (iterator_ctor two_tokens (bigrams_of_string ''xy'') (Fin (- 1)) 0 0) = Some (0, 2) \<and>
   iterator_ctor two_tokens (bigrams_of_string ''xy'') (Fin 0) 0 0 \<noteq> None \<and>
   iterator_ctor two_tokens (bigrams_of_string ''xy'') (Fin (- 1)) 0 0 \<noteq> None"
  by code_simp

text \<open>
  Claim C7, amended. The constructor accepts every threshold, \<open>\<theta> \<le> 0\<close> included: on a
  matcher that satisfies the invariant it returns an iterator for every query, threshold
  and starting position. A threshold \<open>\<theta> > 1\<close> yields no match for any such matcher and
  any query profile: \<^verbatim>\<open>begin\<close> returns the end position and the loop over all matches
  reports nothing.
\<close>

theorem threshold_accepted_and_above_one_no_match:
  "matcher_inv m \<Longrightarrow>
   (\<exists>it m'. iterator_ctor m q thr i j = Some (it, m')) \<and>
   (bigrams_inv q \<and> dless (Fin 1) thr \<longrightarrow>
      (\<exists>it m1. matcher_begin m q thr = Some (it, m1) \<and> m_i it = 0 \<and> m_j it = msize m \<and>
         (\<exists>e m2. matcher_end m1 = Some (e, m2) \<and> iterator_eq it e)) \<and>
      all_matches (msize m * (msize m + 1) + 1) m q thr = Some [])"
proof -
  assume inv: "matcher_inv m"
  have a: "\<exists>it m'. iterator_ctor m q thr i j = Some (it, m')"
    using next_match_scan [OF inv, of "fresh_iterator q thr i j"] by (auto simp: iterator_ctor_fresh)
  have b: "(\<exists>it m1. matcher_begin m q thr = Some (it, m1) \<and> m_i it = 0 \<and> m_j it = msize m \<and>
         (\<exists>e m2. matcher_end m1 = Some (e, m2) \<and> iterator_eq it e)) \<and>
      all_matches (msize m * (msize m + 1) + 1) m q thr = Some []"
    if q: "bigrams_inv q" and thr: "dless (Fin 1) thr"
  proof (rule no_hit_ends [OF inv])
    fix i j assume tri: "i + j < msize m"
    have ps: "\<forall>p \<in> set (row0 m). bigrams_inv p" using inv by (simp add: matcher_inv_def)
    have "i + j < length (row0 m)" using tri length_row0 [OF inv] by simp
    from no_hit_above_one [OF ps q thr this]
    show "\<not> hit (row0 m) (m_strip_ixs m) q thr (dsub (ddiv (Fin 2) thr) (Fin 1)) i j" .
  qed
  show ?thesis using a b by blast
qed

theorem threshold_accepted_and_above_one_no_match_witness:
  "matcher_inv two_tokens \<and> bigrams_inv (bigrams_of_string ''cd'') \<and> dless (Fin 1) (Fin 2) \<and>
   (\<exists>it m'. iterator_ctor two_tokens (bigrams_of_string ''cd'') (Fin 2) 0 0 = Some (it, m')) \<and>
   (\<exists>it m1. matcher_begin two_tokens (bigrams_of_string ''cd'') (Fin 2) = Some (it, m1) \<and>
      m_i it = 0 \<and> m_j it = msize two_tokens) \<and>
   all_matches (msize two_tokens * (msize two_tokens + 1) + 1) two_tokens
     (bigrams_of_string ''cd'') (Fin 2) = Some []"
proof -
  have h: "bigrams_inv (bigrams_of_string ''cd'')" "dless (Fin 1) (Fin 2)"
    by (simp_all add: bigrams_inv_of_string)
  show ?thesis
    using threshold_accepted_and_above_one_no_match
      [OF two_tokens_inv, of "bigrams_of_string ''cd''" "Fin 2" 0 0] two_tokens_inv h
    by blast
qed

text \<open>
  Claim C8, as the claim states it, fails: \<^verbatim>\<open>operator ==\<close> compares the row index too. The
  sentinel of a matcher of two tokens is at \<open>(0, 2)\<close>; \<^verbatim>\<open>++\<close> on it gives an iterator at
  \<open>(1, 2)\<close>, whose column is \<open>N\<close>, and which does not equal the sentinel.
\<close>

theorem sentinel_differs_from_other_rows:
  "matcher_end two_tokens = Some (fresh_iterator bigrams_empty (Fin 0) 0 2, two_tokens) \<and>
   increment (fresh_iterator bigrams_empty (Fin 0) 0 2) two_tokens =
     Some (fresh_iterator bigrams_empty (Fin 0) 1 2, two_tokens) \<and>
   msize two_tokens \<le> m_j (fresh_iterator bigrams_empty (Fin 0) 1 2) \<and>
   \<not> iterator_eq (fresh_iterator bigrams_empty (Fin 0) 1 2) (fresh_iterator bigrams_empty (Fin 0) 0 2)"
  by (simp add: matcher_end_value two_tokens_size increment_def next_match.simps
      fresh_iterator_def iterator_eq_def)

text \<open>
  Claim C8, amended. Equality of two iterators is that of their pairs \<open>(i, j)\<close>, and the
  sentinel of \<^verbatim>\<open>end()\<close> is at \<open>(0, N)\<close>. An iterator returned by \<^verbatim>\<open>begin\<close>, or by \<^verbatim>\<open>++\<close> from
  an iterator on a match (a column \<open>j < N\<close> that is not a strip token), equals the sentinel
  exactly when its column is \<open>j \<ge> N\<close>, and its position is then \<open>(0, N)\<close>. An iterator at
  \<open>(i, N)\<close> with \<open>i \<noteq> 0\<close> does not equal the sentinel.
\<close>

theorem end_equality:
  "matcher_inv m \<Longrightarrow>
   (\<exists>e. matcher_end m = Some (e, m) \<and> m_i e = 0 \<and> m_j e = msize m \<and>
      (\<forall>it m1. matcher_begin m q thr = Some (it, m1) \<longrightarrow>
         (iterator_eq it e \<longleftrightarrow> msize m \<le> m_j it) \<and>
         (msize m \<le> m_j it \<longrightarrow> m_i it = 0 \<and> m_j it = msize m)) \<and>
      (\<forall>it it' m1. m_j it < msize m \<and> m_j it \<notin> m_strip_ixs m \<and> increment it m = Some (it', m1) \<longrightarrow>
         (iterator_eq it' e \<longleftrightarrow> msize m \<le> m_j it') \<and>
         (msize m \<le> m_j it' \<longrightarrow> m_i it' = 0 \<and> m_j it' = msize m)) \<and>
      (\<forall>it. m_j it = msize m \<and> m_i it \<noteq> 0 \<longrightarrow> \<not> iterator_eq it e)) \<and>
   (iterator_eq a b \<longleftrightarrow> (m_i a, m_j a) = (m_i b, m_j b))"
proof -
  assume inv: "matcher_inv m"
  let ?ps = "row0 m" and ?S = "m_strip_ixs m"
  let ?e = "fresh_iterator bigrams_empty (Fin 0) 0 (msize m)"
  have lr: "length ?ps = msize m" using inv by (rule length_row0)
  have sh: "(iterator_eq it ?e \<longleftrightarrow> msize m \<le> m_j it) \<and>
         (msize m \<le> m_j it \<longrightarrow> m_i it = 0 \<and> m_j it = msize m)"
    if "at_hit ?ps ?S it \<or> at_end ?ps it" for it
    using that lr by (auto simp: at_hit_def at_end_def iterator_eq_def)
  have b: "(iterator_eq it ?e \<longleftrightarrow> msize m \<le> m_j it) \<and>
         (msize m \<le> m_j it \<longrightarrow> m_i it = 0 \<and> m_j it = msize m)"
    if "matcher_begin m q thr = Some (it, m1)" for it m1
  proof -
    have "it = scan ?ps ?S (fresh_iterator q thr 0 0)"
      using that matcher_begin_scan [OF inv, of q thr] by auto
    then show ?thesis using scan_from_origin [of ?ps ?S q thr] sh by simp
  qed
  have c: "(iterator_eq it' ?e \<longleftrightarrow> msize m \<le> m_j it') \<and>
         (msize m \<le> m_j it' \<longrightarrow> m_i it' = 0 \<and> m_j it' = msize m)"
    if "m_j it < msize m" "m_j it \<notin> ?S" "increment it m = Some (it', m1)" for it it' m1
  proof -
    let ?it1 = "it\<lparr>m_i := m_i it + 1\<rparr>"
    have e: "it' = scan ?ps ?S ?it1" using that(3) increment_scan [OF inv, of it] by auto
    have pre: "m_i ?it1 = 0 \<or> m_j ?it1 \<notin> ?S" using that(2) by simp
    from scan_shape [OF pre, of ?ps] that(1) lr
    have "at_hit ?ps ?S (scan ?ps ?S ?it1) \<or> at_end ?ps (scan ?ps ?S ?it1)" by simp
    then show ?thesis using sh e by simp
  qed
  have d: "\<not> iterator_eq it ?e" if "m_j it = msize m \<and> m_i it \<noteq> 0" for it
    using that by (simp add: iterator_eq_def)
  have f: "iterator_eq a b \<longleftrightarrow> (m_i a, m_j a) = (m_i b, m_j b)" by (simp add: iterator_eq_def)
  have g: "matcher_end m = Some (?e, m) \<and> m_i ?e = 0 \<and> m_j ?e = msize m"
    by (simp add: matcher_end_value)
  show ?thesis using g b c d f by blast
qed

theorem end_equality_witness:
  "matcher_inv two_tokens \<and>
   (\<exists>e. matcher_end two_tokens = Some (e, two_tokens) \<and> m_i e = 0 \<and> m_j e = msize two_tokens) \<and>
   (iterator_eq (fresh_iterator bigrams_empty (Fin 0) 0 2) (fresh_iterator (bigrams_of_string ''cd'') (Fin 1) 0 2)
      \<longleftrightarrow> (m_i (fresh_iterator bigrams_empty (Fin 0) 0 2), m_j (fresh_iterator bigrams_empty (Fin 0) 0 2)) =
           (m_i (fresh_iterator (bigrams_of_string ''cd'') (Fin 1) 0 2),
            m_j (fresh_iterator (bigrams_of_string ''cd'') (Fin 1) 0 2)))"
proof -
  show ?thesis
    using end_equality [OF two_tokens_inv, of "bigrams_of_string ''cd''" "Fin 1"
        "fresh_iterator bigrams_empty (Fin 0) 0 2" "fresh_iterator (bigrams_of_string ''cd'') (Fin 1) 0 2"]
      two_tokens_inv
    by blast
qed



end
